theory Spec2Isabelle
  imports Complex_Main "HOL-Library.Char_ord" "HOL-Library.List_Lexorder" "HOL-Library.Log_Nat"
begin

section \<open>Data model\<close>

text \<open>
  The premium calculator of \<^verbatim>\<open>app.py\<close>: \<^verbatim>\<open>load_rates\<close>, \<^verbatim>\<open>unit_to_multiplier\<close> and
  \<^verbatim>\<open>calc_total\<close>. A pandas DataFrame is a list of rows in index order; the empty
  DataFrame is the empty list. Python's \<^verbatim>\<open>float\<close> amounts, rates and premiums are
  rationals here. A product, a quotient and the sum of one group are exact: their
  binary rounding is not kept. The two sums over the year column (lines 192 and 194)
  add the same numbers in different orders, so there every addition is rounded to a
  double, as the machine does. Ages and quantities are Python \<^verbatim>\<open>int\<close>, so \<open>int\<close>.

  One row of the rate table, with the six columns \<^verbatim>\<open>load_rates\<close> requires. Other
  columns (\<^verbatim>\<open>source_file\<close> among them) are never read by the calculation. The
  table \<^verbatim>\<open>calc_total\<close> is given always has these columns: the script stops at line
  74 when \<^verbatim>\<open>load_rates\<close> returned the frame without columns.
\<close>

record rate_record =
  product_code :: string
  product_name :: string
  unit :: string
  age :: int
  sex :: string
  rate :: rat

text \<open>
  One basket entry, the dict built at lines 119-121 with keys \<^verbatim>\<open>product_code\<close>,
  \<^verbatim>\<open>product_name\<close>, \<^verbatim>\<open>amount\<close> and \<^verbatim>\<open>qty\<close>.
\<close>

record item =
  item_code :: string
  item_name :: string
  amount :: rat
  qty :: int

text \<open>
  One row of \<^verbatim>\<open>rows_year\<close> (lines 174-183); the eight columns in the order of the
  dict literal: age, product code, product name, unit, face amount, quantity, rate per
  unit, premium of the year.
\<close>

record detail_row =
  d_age :: int
  d_code :: string
  d_name :: string
  d_unit :: string
  d_amount :: int
  d_qty :: int
  d_rate :: rat
  d_premium :: rat

text \<open>One row of \<^verbatim>\<open>df_year_sum\<close>: age, premium of that age, running total.\<close>

record year_row =
  y_age :: int
  y_premium :: rat
  y_cum :: rat

text \<open>
  Every \<^verbatim>\<open>raise\<close> of the source is a \<^verbatim>\<open>ValueError\<close> told apart by its message; each
  message is one constructor, carrying the values the message interpolates:
  line 144 \<open>InvalidRange\<close>, line 156 \<open>ProductNotFound code sex\<close>, line 161
  \<open>InconsistentUnit code units\<close>, line 68 \<open>UnsupportedUnit unit\<close>, line 169
  \<open>MissingAgeCoverage code missing\<close>, line 34 \<open>EncodingUnsupported file\<close>.
  \<open>KeyErrorColumn\<close> is the \<^verbatim>\<open>KeyError\<close> pandas raises when \<^verbatim>\<open>groupby\<close> is given a
  column the frame does not have, \<open>KeyErrorAge\<close> the one of the dict lookup at line 172.
\<close>

datatype error =
    InvalidRange
  | ProductNotFound string string
  | InconsistentUnit string "string list"
  | UnsupportedUnit string
  | MissingAgeCoverage string "int list"
  | EncodingUnsupported string
  | KeyErrorColumn string
  | KeyErrorAge int

section \<open>Library operations the source calls\<close>

text \<open>\<^verbatim>\<open>list(range(a, b))\<close>: the integers from \<open>a\<close> up to, not including, \<open>b\<close>.\<close>

definition py_range :: "int \<Rightarrow> int \<Rightarrow> int list" where
  "py_range a b = [a..b - 1]"

text \<open>\<^verbatim>\<open>int(x)\<close> of a float: truncation towards zero.\<close>

definition py_int :: "rat \<Rightarrow> int" where
  "py_int x = (if 0 \<le> x then \<lfloor>x\<rfloor> else \<lceil>x\<rceil>)"

text \<open>
  \<^verbatim>\<open>Series.unique().tolist()\<close>: the distinct values in order of first appearance.
\<close>

fun unique_from :: "'a list \<Rightarrow> 'a list \<Rightarrow> 'a list" where
  "unique_from seen [] = seen"
| "unique_from seen (x # xs) =
     (if x \<in> set seen then unique_from seen xs else unique_from (seen @ [x]) xs)"

definition unique :: "'a list \<Rightarrow> 'a list" where
  "unique xs = unique_from [] xs"

text \<open>
  \<^verbatim>\<open>Series.to_dict()\<close> of a series indexed by a column: the pairs are entered into
  the dict in row order, so a later row with the same key replaces an earlier one.
\<close>

definition to_dict :: "('k \<times> 'v) list \<Rightarrow> ('k \<rightharpoonup> 'v)" where
  "to_dict kvs = foldl (\<lambda>m (k, v). m(k \<mapsto> v)) Map.empty kvs"

text \<open>
  Rounding to a double (IEEE 754 binary64, round to nearest, ties to even). \<open>ilog2 x\<close>
  is the binary exponent of a positive \<open>x\<close>, the \<open>e\<close> with \<open>2^e \<le> x < 2^(e+1)\<close>;
  \<open>x\<close> is scaled by \<open>2^(e - 52)\<close>, which brings its magnitude between \<open>2^52\<close> and
  \<open>2^53\<close>, rounded to an integer, half-way cases to the even one, and scaled back.
  The exponent is not bounded: overflow to infinity and the subnormal numbers are left
  out.
\<close>

definition ilog2 :: "rat \<Rightarrow> int" where
  "ilog2 x = (if 1 \<le> x then bitlen \<lfloor>x\<rfloor> - 1 else - bitlen (\<lceil>1 / x\<rceil> - 1))"

definition round_half_even :: "rat \<Rightarrow> int" where
  "round_half_even y =
     (let f = \<lfloor>y\<rfloor>; r = y - of_int f
      in if r < 1 / 2 then f
         else if 1 / 2 < r then f + 1
         else if even f then f else f + 1)"

definition round_double :: "rat \<Rightarrow> rat" where
  "round_double x =
     (if x = 0 then 0
      else let u = 2 powi (ilog2 \<bar>x\<bar> - 52)
           in of_int (round_half_even (x / u)) * u)"

text \<open>The sum of two doubles, as the machine returns it.\<close>

definition float_add :: "rat \<Rightarrow> rat \<Rightarrow> rat" where
  "float_add x y = round_double (x + y)"

text \<open>
  \<^verbatim>\<open>Series.cumsum()\<close>: the running sums, left to right, one rounded addition for each
  further value. The first entry is the first value itself; it is written \<open>0 + x\<close>
  here, which on a double is the same. (The year column of the source holds doubles;
  here it holds the exact sums of the groups, and rounding from the first addition on
  makes every running sum a double.)
\<close>

fun cumsum_from :: "rat \<Rightarrow> rat list \<Rightarrow> rat list" where
  "cumsum_from acc [] = []"
| "cumsum_from acc (x # xs) = float_add acc x # cumsum_from (float_add acc x) xs"

definition cumsum :: "rat list \<Rightarrow> rat list" where
  "cumsum xs = cumsum_from 0 xs"

text \<open>
  \<^verbatim>\<open>Series.sum()\<close> of a float column is numpy's sum, which adds pairwise. Fewer than
  8 values are added left to right, starting from 0. Up to 128 values go into eight
  accumulators: accumulator \<open>j\<close> starts as value \<open>j\<close> and takes values \<open>8 + j\<close>,
  \<open>16 + j\<close>, ... of the full blocks of eight (\<open>add_blocks\<close>); the accumulators are
  added as \<open>((r0 + r1) + (r2 + r3)) + ((r4 + r5) + (r6 + r7))\<close> (\<open>combine8\<close>), and
  the values left after the last full block are added one by one. A longer column is
  cut at a multiple of 8 next to its middle, and the sums of the two parts are added.
\<close>

fun add_blocks :: "rat list \<Rightarrow> rat list \<Rightarrow> rat list" where
  "add_blocks r (a0 # a1 # a2 # a3 # a4 # a5 # a6 # a7 # rest) =
     add_blocks (map2 float_add r [a0, a1, a2, a3, a4, a5, a6, a7]) rest"
| "add_blocks r rest = r"

fun combine8 :: "rat list \<Rightarrow> rat" where
  "combine8 [r0, r1, r2, r3, r4, r5, r6, r7] =
     float_add (float_add (float_add r0 r1) (float_add r2 r3))
               (float_add (float_add r4 r5) (float_add r6 r7))"
| "combine8 r = 0"

function pairwise_sum :: "rat list \<Rightarrow> rat" where
  "pairwise_sum xs =
     (let n = length xs
      in if n < 8 then foldl float_add 0 xs
         else if n \<le> 128 then
           foldl float_add
             (combine8 (add_blocks (take 8 xs) (drop 8 (take (n - n mod 8) xs))))
             (drop (n - n mod 8) xs)
         else
           let n2 = n div 2 - (n div 2) mod 8
           in float_add (pairwise_sum (take n2 xs)) (pairwise_sum (drop n2 xs)))"
  by pat_completeness auto
termination
  by (relation "measure length") auto

declare pairwise_sum.simps [simp del]

text \<open>
  \<^verbatim>\<open>df.groupby(age, as_index=False)[premium].sum()\<close>: one row per distinct age, the
  ages in ascending order (\<^verbatim>\<open>groupby\<close> sorts its keys), each with the sum of the
  premiums of the rows of that age.
\<close>

definition groupby_sum :: "detail_row list \<Rightarrow> (int \<times> rat) list" where
  "groupby_sum rows =
     map (\<lambda>a. (a, sum_list (map d_premium (filter (\<lambda>r. d_age r = a) rows))))
         (sort (remdups (map d_age rows)))"

section \<open>The calculator\<close>

text \<open>Lines 59-68.\<close>

definition unit_to_multiplier :: "string \<Rightarrow> rat \<Rightarrow> error + rat" where
  "unit_to_multiplier u amt =
     (if u = ''per_10k'' then Inr (amt / 10000)
      else if u = ''per_1k'' then Inr (amt / 1000)
      else if u = ''per_1'' then Inr amt
      else Inl (UnsupportedUnit u))"

text \<open>Line 146: the ages to price.\<close>

definition target_ages :: "int \<Rightarrow> int \<Rightarrow> bool \<Rightarrow> int list" where
  "target_ages start_age end_age include_end =
     py_range start_age (end_age + (if include_end then 1 else 0))"

text \<open>Line 154: the rows of one product and sex, in table order.\<close>

definition query :: "rate_record list \<Rightarrow> string \<Rightarrow> string \<Rightarrow> rate_record list" where
  "query rates_df code sx = filter (\<lambda>r. product_code r = code \<and> sex r = sx) rates_df"

text \<open>Line 164.\<close>

definition item_multiplier :: "string \<Rightarrow> rat \<Rightarrow> int \<Rightarrow> error + rat" where
  "item_multiplier u amt q =
     (case unit_to_multiplier u amt of
        Inl e \<Rightarrow> Inl e
      | Inr m \<Rightarrow> Inr (m * of_int q))"

text \<open>Line 166.\<close>

definition rate_map_of :: "rate_record list \<Rightarrow> (int \<rightharpoonup> rat)" where
  "rate_map_of sub = to_dict (map (\<lambda>r. (age r, rate r)) sub)"

text \<open>Lines 174-183: the row of one age.\<close>

definition mk_row :: "rat \<Rightarrow> rat \<Rightarrow> string \<Rightarrow> item \<Rightarrow> int \<Rightarrow> detail_row" where
  "mk_row rt multiplier u it a =
     \<lparr>d_age = a, d_code = item_code it, d_name = item_name it, d_unit = u,
      d_amount = py_int (amount it), d_qty = qty it, d_rate = rt,
      d_premium = rt * multiplier\<rparr>"

text \<open>
  Lines 171-183: one row per age, in the order of \<open>ages\<close>. The lookup
  \<^verbatim>\<open>rate_map[a]\<close> raises \<^verbatim>\<open>KeyError\<close> on an age that is not a key.
\<close>

fun emit_rows :: "(int \<rightharpoonup> rat) \<Rightarrow> rat \<Rightarrow> string \<Rightarrow> item \<Rightarrow> int list \<Rightarrow> error + detail_row list" where
  "emit_rows rate_map multiplier u it [] = Inr []"
| "emit_rows rate_map multiplier u it (a # ages) =
     (case rate_map a of
        None \<Rightarrow> Inl (KeyErrorAge a)
      | Some rt \<Rightarrow>
          (case emit_rows rate_map multiplier u it ages of
             Inl e \<Rightarrow> Inl e
           | Inr rows \<Rightarrow> Inr (mk_row rt multiplier u it a # rows)))"

text \<open>Lines 150-183: the body of the loop over the basket, for one item.\<close>

definition calc_item :: "rate_record list \<Rightarrow> string \<Rightarrow> int list \<Rightarrow> item \<Rightarrow> error + detail_row list" where
  "calc_item rates_df sx ages it =
     (let code = item_code it;
          sub = query rates_df code sx
      in if sub = [] then Inl (ProductNotFound code sx)
         else
           let units = unique (map unit sub)
           in if length units \<noteq> 1 then Inl (InconsistentUnit code units)
              else
                (case item_multiplier (hd units) (amount it) (qty it) of
                   Inl e \<Rightarrow> Inl e
                 | Inr multiplier \<Rightarrow>
                     let rate_map = rate_map_of sub;
                         missing = filter (\<lambda>a. rate_map a = None) ages
                     in if missing \<noteq> [] then Inl (MissingAgeCoverage code missing)
                        else emit_rows rate_map multiplier (hd units) it ages))"

text \<open>
  Lines 147-183: the loop. \<open>rows_year\<close> is the list built so far; the first item that
  raises ends the call, and the rows built so far are lost with it.
\<close>

fun calc_items :: "rate_record list \<Rightarrow> string \<Rightarrow> int list \<Rightarrow> item list \<Rightarrow> detail_row list \<Rightarrow> error + detail_row list" where
  "calc_items rates_df sx ages [] rows_year = Inr rows_year"
| "calc_items rates_df sx ages (it # items) rows_year =
     (case calc_item rates_df sx ages it of
        Inl e \<Rightarrow> Inl e
      | Inr rows \<Rightarrow> calc_items rates_df sx ages items (rows_year @ rows))"

text \<open>
  Lines 187-192: the grouped sums, sorted by age, with the running total as a third
  column.
\<close>

definition year_sum :: "detail_row list \<Rightarrow> year_row list" where
  "year_sum df_detail =
     (let grouped = sort_key fst (groupby_sum df_detail)
      in map (\<lambda>((a, p), c). \<lparr>y_age = a, y_premium = p, y_cum = c\<rparr>)
             (zip grouped (cumsum (map snd grouped))))"

text \<open>
  Lines 142-195. \<^verbatim>\<open>pd.DataFrame([])\<close> is a frame with no columns, so when no row was
  built \<^verbatim>\<open>groupby\<close> finds no age column and raises \<^verbatim>\<open>KeyError\<close>; the column name is
  written \<open>''age''\<close> here. The total of line 194 is \<^verbatim>\<open>Series.sum()\<close> of the year
  column. The result is the triple of line 195: total, detail frame, year frame.
\<close>

definition calc_total :: "rate_record list \<Rightarrow> item list \<Rightarrow> string \<Rightarrow> int \<Rightarrow> int \<Rightarrow> bool
    \<Rightarrow> error + (rat \<times> detail_row list \<times> year_row list)" where
  "calc_total rates_df items sx start_age end_age include_end =
     (if end_age < start_age then Inl InvalidRange
      else
        let ages = target_ages start_age end_age include_end
        in case calc_items rates_df sx ages items [] of
             Inl e \<Rightarrow> Inl e
           | Inr df_detail \<Rightarrow>
               if df_detail = [] then Inl (KeyErrorColumn ''age'')
               else
                 let df_year_sum = year_sum df_detail;
                     total = pairwise_sum (map y_premium df_year_sum)
                 in Inr (total, df_detail, df_year_sum))"

section \<open>Loading the rate files\<close>

text \<open>
  Lines 12-57. The file system and the CSV reader are arguments: \<open>isdir\<close> is
  \<^verbatim>\<open>os.path.isdir\<close>, \<open>glob_csv\<close> the paths \<^verbatim>\<open>glob.glob\<close> finds for \<^verbatim>\<open>*.csv\<close> in the
  directory, \<open>read_csv f enc\<close> the frame \<^verbatim>\<open>pd.read_csv\<close> parses from file \<open>f\<close> in
  encoding \<open>enc\<close>, or \<open>None\<close> when it raises \<^verbatim>\<open>UnicodeDecodeError\<close>, and \<open>build_table\<close>
  is lines 39-57 (concatenation, the check of the required columns, normalisation of
  the columns and the check of the rates) on the frames read, each tagged with its
  file name.
\<close>

definition basename :: "string \<Rightarrow> string" where
  "basename f = rev (takeWhile (\<lambda>c. c \<noteq> CHR ''/'') (rev f))"

text \<open>Lines 26-31: the encodings are tried in order, the first that decodes wins.\<close>

fun try_encodings :: "(string \<Rightarrow> string \<Rightarrow> 'df option) \<Rightarrow> string \<Rightarrow> string list \<Rightarrow> 'df option" where
  "try_encodings read_csv f [] = None"
| "try_encodings read_csv f (enc # encs) =
     (case read_csv f enc of
        Some df \<Rightarrow> Some df
      | None \<Rightarrow> try_encodings read_csv f encs)"

text \<open>Lines 22-37: the loop over the files.\<close>

fun read_files :: "(string \<Rightarrow> string \<Rightarrow> 'df option) \<Rightarrow> string list \<Rightarrow> error + (string \<times> 'df) list" where
  "read_files read_csv [] = Inr []"
| "read_files read_csv (f # files) =
     (case try_encodings read_csv f [''utf-8'', ''utf-8-sig'', ''cp950'', ''big5''] of
        None \<Rightarrow> Inl (EncodingUnsupported (basename f))
      | Some df \<Rightarrow>
          (case read_files read_csv files of
             Inl e \<Rightarrow> Inl e
           | Inr dfs \<Rightarrow> Inr ((basename f, df) # dfs)))"

definition load_rates :: "(string \<Rightarrow> bool) \<Rightarrow> (string \<Rightarrow> string list)
    \<Rightarrow> (string \<Rightarrow> string \<Rightarrow> 'df option) \<Rightarrow> ((string \<times> 'df) list \<Rightarrow> error + rate_record list)
    \<Rightarrow> string \<Rightarrow> error + rate_record list" where
  "load_rates isdir glob_csv read_csv build_table rates_dir =
     (if \<not> isdir rates_dir then Inr []
      else
        let files = glob_csv rates_dir
        in if files = [] then Inr []
           else
             (case read_files read_csv files of
                Inl e \<Rightarrow> Inl e
              | Inr dfs \<Rightarrow> build_table dfs))"

section \<open>Properties of the outputs\<close>

text \<open>
  Rows sorted by the pair (age, product code): the age decides, the product code breaks
  ties. Strings compare character by character, as Python's do.
\<close>

definition detail_sorted :: "detail_row list \<Rightarrow> bool" where
  "detail_sorted rows =
     sorted_wrt (\<lambda>r1 r2. d_age r1 < d_age r2 \<or> (d_age r1 = d_age r2 \<and> d_code r1 \<le> d_code r2)) rows"

section \<open>Example data\<close>

text \<open>
  The rate table of the end-to-end scenario: product A001, unit \<^verbatim>\<open>per_10k\<close>, sex M,
  ages 16 to 20, rate 5 at every age; and the basket entry for it.
\<close>

definition rates_A001 :: "rate_record list" where
  "rates_A001 =
     map (\<lambda>a. \<lparr>product_code = ''A001'', product_name = ''TestLife'', unit = ''per_10k'',
                age = a, sex = ''M'', rate = 5\<rparr>) [16, 17, 18, 19, 20]"

definition item_A001 :: item where
  "item_A001 = \<lparr>item_code = ''A001'', item_name = ''TestLife'', amount = 1000000, qty = 1\<rparr>"

text \<open>The same table with a rider B002, unit \<^verbatim>\<open>per_1k\<close>, ages 16 and 17, rate 2.\<close>

definition rates_AB :: "rate_record list" where
  "rates_AB = rates_A001 @
     map (\<lambda>a. \<lparr>product_code = ''B002'', product_name = ''Rider'', unit = ''per_1k'',
                age = a, sex = ''M'', rate = 2\<rparr>) [16, 17]"

definition item_B002 :: item where
  "item_B002 = \<lparr>item_code = ''B002'', item_name = ''Rider'', amount = 1000, qty = 1\<rparr>"

text \<open>
  The first table followed by a product X whose two rows disagree on the unit.
\<close>

definition rates_AX :: "rate_record list" where
  "rates_AX = rates_A001 @
     [\<lparr>product_code = ''X'', product_name = ''Mixed'', unit = ''per_10k'',
       age = 16, sex = ''M'', rate = 5\<rparr>,
      \<lparr>product_code = ''X'', product_name = ''Mixed'', unit = ''per_1k'',
       age = 17, sex = ''M'', rate = 5\<rparr>]"

definition item_X :: item where
  "item_X = \<lparr>item_code = ''X'', item_name = ''Mixed'', amount = 10000, qty = 1\<rparr>"

text \<open>Product A001 again, with a rate table that covers the ages 16 to 40.\<close>

definition rates_16_40 :: "rate_record list" where
  "rates_16_40 =
     map (\<lambda>a. \<lparr>product_code = ''A001'', product_name = ''TestLife'', unit = ''per_10k'',
                age = a, sex = ''M'', rate = 5\<rparr>) [16..40]"

text \<open>
  A product T with unit \<^verbatim>\<open>per_1k\<close> and the rates 0.1, 0.2, ... 0.8, each the double
  nearest to it, at the ages 20 to 27; and an item for it with face amount 1000.
\<close>

definition rates_tenths :: "rate_record list" where
  "rates_tenths =
     map (\<lambda>i. \<lparr>product_code = ''T'', product_name = ''Tenths'', unit = ''per_1k'',
                age = 19 + i, sex = ''M'', rate = round_double (of_int i / 10)\<rparr>) [1..8]"

definition item_T :: item where
  "item_T = \<lparr>item_code = ''T'', item_name = ''Tenths'', amount = 1000, qty = 1\<rparr>"

text \<open>A product with two rows for the same sex and age, at rates 5 and 7.\<close>

definition rates_dup :: "rate_record list" where
  "rates_dup =
     [\<lparr>product_code = ''D'', product_name = ''Dup'', unit = ''per_1'',
       age = 16, sex = ''M'', rate = 5\<rparr>,
      \<lparr>product_code = ''D'', product_name = ''Dup'', unit = ''per_1'',
       age = 16, sex = ''M'', rate = 7\<rparr>]"

definition item_D :: item where
  "item_D = \<lparr>item_code = ''D'', item_name = ''Dup'', amount = 1, qty = 1\<rparr>"

section \<open>Lemmas on the library operations\<close>

lemma set_unique_from: "set (unique_from seen xs) = set seen \<union> set xs"
  by (induction xs arbitrary: seen) auto

lemma distinct_unique_from: "distinct seen \<Longrightarrow> distinct (unique_from seen xs)"
  by (induction xs arbitrary: seen) auto

lemma set_unique: "set (unique xs) = set xs"
  by (simp add: unique_def set_unique_from)

lemma distinct_unique: "distinct (unique xs)"
  by (simp add: unique_def distinct_unique_from)

lemma length_unique: "length (unique xs) = card (set xs)"
  using distinct_card[OF distinct_unique, of xs] by (simp add: set_unique)

lemma to_dict_snoc: "to_dict (kvs @ [(k, v)]) = (to_dict kvs)(k \<mapsto> v)"
  by (simp add: to_dict_def)

lemma to_dict_Nil: "to_dict [] = Map.empty"
  by (simp add: to_dict_def)

lemma to_dict_map_of: "to_dict kvs = map_of (rev kvs)"
proof (induction kvs rule: rev_induct)
  case Nil
  show ?case by (simp add: to_dict_Nil)
next
  case (snoc kv kvs)
  obtain k v where kv: "kv = (k, v)" by (cases kv)
  show ?case by (simp add: kv to_dict_snoc snoc.IH)
qed

lemma to_dict_None: "to_dict kvs k = None \<longleftrightarrow> k \<notin> fst ` set kvs"
  by (simp add: to_dict_map_of map_of_eq_None_iff)

lemma to_dict_last:
  "k \<in> fst ` set kvs \<Longrightarrow> to_dict kvs k = Some (snd (last (filter (\<lambda>kv. fst kv = k) kvs)))"
proof (induction kvs rule: rev_induct)
  case Nil
  then show ?case by simp
next
  case (snoc kv kvs)
  obtain k' v where kv: "kv = (k', v)" by (cases kv)
  show ?case
  proof (cases "k' = k")
    case True
    then show ?thesis by (simp add: kv to_dict_snoc)
  next
    case False
    with snoc.prems have "k \<in> fst ` set kvs" by (auto simp: kv)
    from snoc.IH[OF this] False show ?thesis by (simp add: kv to_dict_snoc)
  qed
qed

section \<open>Lemmas on the calculator\<close>

lemma rate_map_of_None: "rate_map_of sub a = None \<longleftrightarrow> a \<notin> age ` set sub"
  by (simp add: rate_map_of_def to_dict_None image_image)

lemma rate_map_of_last:
  assumes "a \<in> age ` set sub"
  shows "rate_map_of sub a = Some (rate (last (filter (\<lambda>r. age r = a) sub)))"
proof -
  let ?kvs = "map (\<lambda>r. (age r, rate r)) sub"
  have in_keys: "a \<in> fst ` set ?kvs" using assms by (simp add: image_image)
  have flt: "filter (\<lambda>kv. fst kv = a) ?kvs = map (\<lambda>r. (age r, rate r)) (filter (\<lambda>r. age r = a) sub)"
    by (simp add: filter_map o_def)
  have ne: "filter (\<lambda>r. age r = a) sub \<noteq> []"
    using assms by (auto simp: filter_empty_conv)
  show ?thesis
    unfolding rate_map_of_def to_dict_last[OF in_keys] flt
    using ne by (simp add: last_map)
qed

lemma emit_rows_total:
  "\<forall>a \<in> set ages. rate_map a \<noteq> None \<Longrightarrow>
   emit_rows rate_map m u it ages = Inr (map (\<lambda>a. mk_row (the (rate_map a)) m u it a) ages)"
  by (induction ages) auto

lemma calc_item_Inr:
  assumes "calc_item rates_df sx ages it = Inr rows"
  shows "query rates_df (item_code it) sx \<noteq> []"
    and "length (unique (map unit (query rates_df (item_code it) sx))) = 1"
    and "\<exists>m. item_multiplier (hd (unique (map unit (query rates_df (item_code it) sx)))) (amount it) (qty it) = Inr m
          \<and> rows = map (\<lambda>a. mk_row (the (rate_map_of (query rates_df (item_code it) sx) a)) m
                         (hd (unique (map unit (query rates_df (item_code it) sx)))) it a) ages"
    and "\<forall>a \<in> set ages. a \<in> age ` set (query rates_df (item_code it) sx)"
  using assms
  by (auto simp: calc_item_def Let_def filter_empty_conv rate_map_of_None emit_rows_total
      split: if_splits sum.splits)

lemma calc_items_Inr:
  "calc_items rates_df sx ages items acc = Inr rows \<Longrightarrow>
   \<exists>blocks. list_all2 (\<lambda>it b. calc_item rates_df sx ages it = Inr b) items blocks
           \<and> rows = acc @ concat blocks"
proof (induction items arbitrary: acc)
  case Nil
  then show ?case by simp
next
  case (Cons it items)
  from Cons.prems obtain b where b: "calc_item rates_df sx ages it = Inr b"
    and rest: "calc_items rates_df sx ages items (acc @ b) = Inr rows"
    by (auto split: sum.splits)
  from Cons.IH[OF rest] obtain blocks where
    "list_all2 (\<lambda>it b. calc_item rates_df sx ages it = Inr b) items blocks"
    "rows = (acc @ b) @ concat blocks" by blast
  then have "list_all2 (\<lambda>it b. calc_item rates_df sx ages it = Inr b) (it # items) (b # blocks)
      \<and> rows = acc @ concat (b # blocks)"
    using b by simp
  then show ?case by blast
qed

lemma calc_items_first_error:
  "\<forall>p \<in> set pre. \<exists>b. calc_item rates_df sx ages p = Inr b \<Longrightarrow>
   calc_item rates_df sx ages it = Inl e \<Longrightarrow>
   calc_items rates_df sx ages (pre @ it # post) acc = Inl e"
  by (induction pre arbitrary: acc) auto

lemma calc_items_Inr_each:
  assumes "calc_items rates_df sx ages items acc = Inr rows" and "it \<in> set items"
  shows "\<exists>b. calc_item rates_df sx ages it = Inr b"
proof -
  from calc_items_Inr[OF assms(1)] obtain blocks where
    "list_all2 (\<lambda>it b. calc_item rates_df sx ages it = Inr b) items blocks" by blast
  with assms(2) show ?thesis
    by (auto simp: list_all2_conv_all_nth in_set_conv_nth)
qed

subsection \<open>Rounding to a double\<close>

lemma powi_nat: "0 \<le> k \<Longrightarrow> (2::rat) powi k = 2 ^ nat k"
  by (simp add: power_int_def)

lemma powi_neg: "k < 0 \<Longrightarrow> (2::rat) powi k = 1 / 2 ^ nat (- k)"
  by (simp add: power_int_def inverse_eq_divide power_one_over)

lemma ilog2_ge1:
  assumes "1 \<le> x"
  shows "2 powi (ilog2 x) \<le> x \<and> x < 2 powi (ilog2 x + 1)"
proof -
  let ?n = "\<lfloor>x\<rfloor>"
  let ?b = "bitlen ?n"
  have n: "0 < ?n" using assms by simp
  from bitlen_bounds[OF n] have lo: "2 ^ nat (?b - 1) \<le> ?n" and hi: "?n < 2 ^ nat ?b" by auto
  have b1: "1 \<le> ?b"
  proof (rule ccontr)
    assume "\<not> 1 \<le> ?b"
    then have "nat ?b = 0" by simp
    with hi n show False by simp
  qed
  have "(2::rat) powi (?b - 1) = of_int (2 ^ nat (?b - 1))"
    using b1 by (simp add: powi_nat)
  also have "\<dots> \<le> of_int ?n" using lo by (simp only: of_int_le_iff)
  also have "\<dots> \<le> x" by simp
  finally have A: "2 powi (?b - 1) \<le> x" .
  have "?n + 1 \<le> 2 ^ nat ?b" using hi by simp
  then have "(of_int (?n + 1) :: rat) \<le> of_int (2 ^ nat ?b)" by (simp only: of_int_le_iff)
  moreover have "x < of_int (?n + 1)" by linarith
  ultimately have "x < of_int (2 ^ nat ?b)" by linarith
  then have B: "x < 2 powi ?b" using b1 by (simp add: powi_nat)
  from A B assms show ?thesis by (simp add: ilog2_def)
qed

lemma ilog2_lt1:
  assumes "0 < x" "x < 1"
  shows "2 powi (ilog2 x) \<le> x \<and> x < 2 powi (ilog2 x + 1)"
proof -
  let ?y = "1 / x"
  let ?M = "\<lceil>?y\<rceil> - 1"
  let ?m = "bitlen ?M"
  have y1: "1 < ?y" using assms by simp
  then have M: "0 < ?M" by (simp add: less_ceiling_iff)
  from bitlen_bounds[OF M] have lo: "2 ^ nat (?m - 1) \<le> ?M" and hi: "?M < 2 ^ nat ?m" by auto
  have m1: "1 \<le> ?m"
  proof (rule ccontr)
    assume "\<not> 1 \<le> ?m"
    then have "nat ?m = 0" by simp
    with hi M show False by simp
  qed
  have "\<lceil>?y\<rceil> \<le> 2 ^ nat ?m" using hi by simp
  then have "(of_int \<lceil>?y\<rceil> :: rat) \<le> of_int (2 ^ nat ?m)" by (simp only: of_int_le_iff)
  moreover have "?y \<le> of_int \<lceil>?y\<rceil>" by simp
  ultimately have "?y \<le> of_int (2 ^ nat ?m)" by (rule order_trans[rotated])
  then have yle: "?y \<le> 2 ^ nat ?m" by simp
  have "(of_int (2 ^ nat (?m - 1)) :: rat) \<le> of_int ?M" using lo by (simp only: of_int_le_iff)
  moreover have "of_int ?M < ?y" by (simp add: less_ceiling_iff[symmetric]) linarith
  ultimately have "of_int (2 ^ nat (?m - 1)) < ?y" by (rule le_less_trans)
  then have ygt: "2 ^ nat (?m - 1) < ?y" by simp
  have pm: "(2::rat) powi (- ?m) = 1 / 2 ^ nat ?m"
    using m1 powi_neg[of "- ?m"] by simp
  have pm1: "(2::rat) powi (- ?m + 1) = 1 / 2 ^ nat (?m - 1)"
  proof (cases "?m = 1")
    case True
    then show ?thesis by simp
  next
    case False
    with m1 have "- ?m + 1 < 0" by simp
    from powi_neg[OF this] show ?thesis by simp
  qed
  have A: "2 powi (- ?m) \<le> x"
  proof -
    have "1 \<le> 2 ^ nat ?m * x" using yle assms(1) by (simp add: field_simps)
    then have "1 / 2 ^ nat ?m \<le> x" by (simp add: field_simps)
    then show ?thesis by (simp only: pm)
  qed
  have B: "x < 2 powi (- ?m + 1)"
  proof -
    have "2 ^ nat (?m - 1) * x < 1" using ygt assms(1) by (simp add: field_simps)
    then have "x < 1 / 2 ^ nat (?m - 1)" by (simp add: field_simps)
    then show ?thesis by (simp only: pm1)
  qed
  from A B assms show ?thesis by (simp add: ilog2_def)
qed

lemma ilog2_bounds:
  "0 < x \<Longrightarrow> 2 powi (ilog2 x) \<le> x \<and> x < 2 powi (ilog2 x + 1)"
  using ilog2_ge1[of x] ilog2_lt1[of x] by (cases "1 \<le> x") auto

lemma ilog2_unique:
  assumes "2 powi k \<le> x" "x < 2 powi (k + 1)"
  shows "ilog2 x = k"
proof -
  have "(0::rat) < 2 powi k" by (rule zero_less_power_int) simp
  then have pos: "0 < x" using assms(1) by (rule less_le_trans)
  from ilog2_bounds[OF pos] have lo: "2 powi (ilog2 x) \<le> x" and hi: "x < 2 powi (ilog2 x + 1)"
    by auto
  have "\<not> ilog2 x < k"
  proof
    assume "ilog2 x < k"
    then have "ilog2 x + 1 \<le> k" by simp
    then have "(2::rat) powi (ilog2 x + 1) \<le> 2 powi k" by (intro power_int_increasing) simp_all
    with hi assms(1) show False by simp
  qed
  moreover have "\<not> k < ilog2 x"
  proof
    assume "k < ilog2 x"
    then have "k + 1 \<le> ilog2 x" by simp
    then have "(2::rat) powi (k + 1) \<le> 2 powi (ilog2 x)" by (intro power_int_increasing) simp_all
    with lo assms(2) show False by simp
  qed
  ultimately show ?thesis by simp
qed

lemma ilog2_mono:
  assumes "0 < x" "x \<le> y"
  shows "ilog2 x \<le> ilog2 y"
proof (rule ccontr)
  assume "\<not> ilog2 x \<le> ilog2 y"
  then have "ilog2 y + 1 \<le> ilog2 x" by simp
  then have "(2::rat) powi (ilog2 y + 1) \<le> 2 powi (ilog2 x)"
    by (intro power_int_increasing) simp_all
  moreover have "y < 2 powi (ilog2 y + 1)" using ilog2_bounds[of y] assms by simp
  moreover have "2 powi (ilog2 x) \<le> x" using ilog2_bounds[of x] assms by simp
  ultimately show False using assms(2) by simp
qed

lemma round_half_even_of_int: "round_half_even (of_int n) = n"
  by (simp add: round_half_even_def)

lemma round_half_even_range:
  "\<lfloor>y\<rfloor> \<le> round_half_even y \<and> round_half_even y \<le> \<lfloor>y\<rfloor> + 1"
  by (simp add: round_half_even_def Let_def)

lemma round_half_even_mono:
  assumes "y1 \<le> y2"
  shows "round_half_even y1 \<le> round_half_even y2"
proof (cases "\<lfloor>y1\<rfloor> = \<lfloor>y2\<rfloor>")
  case True
  with assms have "y1 - of_int \<lfloor>y1\<rfloor> \<le> y2 - of_int \<lfloor>y2\<rfloor>" by simp
  with True show ?thesis by (auto simp: round_half_even_def Let_def)
next
  case False
  with assms have "\<lfloor>y1\<rfloor> < \<lfloor>y2\<rfloor>" using floor_mono[OF assms] by simp
  then have "\<lfloor>y1\<rfloor> + 1 \<le> \<lfloor>y2\<rfloor>" by simp
  with round_half_even_range[of y1] round_half_even_range[of y2] show ?thesis by linarith
qed

lemma pow_split52: "(2::rat) powi e = 2 ^ 52 * 2 powi (e - 52)"
proof -
  have "(2::rat) powi (52 + (e - 52)) = 2 powi 52 * 2 powi (e - 52)"
    by (rule power_int_add) simp
  moreover have "52 + (e - 52) = e" by simp
  ultimately show ?thesis by simp
qed

lemma pow_split53: "(2::rat) powi (e + 1) = 2 ^ 53 * 2 powi (e - 52)"
proof -
  have "(2::rat) powi (53 + (e - 52)) = 2 powi 53 * 2 powi (e - 52)"
    by (rule power_int_add) simp
  moreover have "53 + (e - 52) = e + 1" by simp
  ultimately show ?thesis by simp
qed

lemma scaled_range:
  assumes "0 < x"
  shows "2 ^ 52 \<le> x / 2 powi (ilog2 x - 52)" "x / 2 powi (ilog2 x - 52) < 2 ^ 53"
proof -
  let ?e = "ilog2 x"
  let ?u = "(2::rat) powi (?e - 52)"
  have u: "0 < ?u" by (simp add: zero_less_power_int)
  have e: "(2::rat) powi ?e = 2 ^ 52 * ?u"
    by (rule pow_split52)
  have e1: "(2::rat) powi (?e + 1) = 2 ^ 53 * ?u"
    by (rule pow_split53)
  from ilog2_bounds[OF assms] have "2 ^ 52 * ?u \<le> x" "x < 2 ^ 53 * ?u" by (simp_all add: e e1)
  then show "2 ^ 52 \<le> x / ?u" "x / ?u < 2 ^ 53"
    using u by (simp_all add: pos_le_divide_eq pos_divide_less_eq)
qed

lemma round_double_pos:
  assumes "0 < x"
  shows "round_double x = of_int (round_half_even (x / 2 powi (ilog2 x - 52))) * 2 powi (ilog2 x - 52)"
  using assms by (simp add: round_double_def Let_def)

lemma mantissa_range:
  assumes "0 < x"
  shows "2 ^ 52 \<le> round_half_even (x / 2 powi (ilog2 x - 52))"
    "round_half_even (x / 2 powi (ilog2 x - 52)) \<le> 2 ^ 53"
proof -
  let ?y = "x / 2 powi (ilog2 x - 52)"
  from scaled_range[OF assms] have lo: "of_int (2 ^ 52) \<le> ?y" and hi: "?y \<le> of_int (2 ^ 53)"
    by simp_all
  from round_half_even_mono[OF lo] show "2 ^ 52 \<le> round_half_even ?y"
    by (simp only: round_half_even_of_int)
  from round_half_even_mono[OF hi] show "round_half_even ?y \<le> 2 ^ 53"
    by (simp only: round_half_even_of_int)
qed

lemma round_double_range:
  assumes "0 < x"
  shows "2 powi (ilog2 x) \<le> round_double x" "round_double x \<le> 2 powi (ilog2 x + 1)"
proof -
  let ?e = "ilog2 x"
  let ?u = "(2::rat) powi (?e - 52)"
  let ?n = "round_half_even (x / ?u)"
  have u: "0 < ?u" by (simp add: zero_less_power_int)
  have e: "(2::rat) powi ?e = 2 ^ 52 * ?u"
    by (rule pow_split52)
  have e1: "(2::rat) powi (?e + 1) = 2 ^ 53 * ?u"
    by (rule pow_split53)
  from mantissa_range[OF assms] have "(of_int (2 ^ 52) :: rat) \<le> of_int ?n" "(of_int ?n :: rat) \<le> of_int (2 ^ 53)"
    by (simp_all only: of_int_le_iff)
  then have "2 ^ 52 * ?u \<le> of_int ?n * ?u" "of_int ?n * ?u \<le> 2 ^ 53 * ?u"
    using u by simp_all
  then show "2 powi ?e \<le> round_double x" "round_double x \<le> 2 powi (?e + 1)"
    by (simp_all only: e e1 round_double_pos[OF assms])
qed

lemma round_double_pos_pos:
  assumes "0 < x"
  shows "0 < round_double x"
proof -
  have "(0::rat) < 2 powi (ilog2 x)" by (rule zero_less_power_int) simp
  then show ?thesis using round_double_range(1)[OF assms] by (rule less_le_trans)
qed

lemma round_double_mono_pos:
  assumes "0 < x" "x \<le> y"
  shows "round_double x \<le> round_double y"
proof -
  have y: "0 < y" using assms by simp
  have le: "ilog2 x \<le> ilog2 y" by (rule ilog2_mono[OF assms])
  show ?thesis
  proof (cases "ilog2 x = ilog2 y")
    case True
    let ?u = "(2::rat) powi (ilog2 y - 52)"
    have u: "0 < ?u" by (simp add: zero_less_power_int)
    have "x / ?u \<le> y / ?u" using assms(2) u by (simp add: divide_right_mono)
    from round_half_even_mono[OF this]
    have "(of_int (round_half_even (x / ?u)) :: rat) \<le> of_int (round_half_even (y / ?u))"
      by (simp only: of_int_le_iff)
    then have "of_int (round_half_even (x / ?u)) * ?u \<le> of_int (round_half_even (y / ?u)) * ?u"
      using u by simp
    then show ?thesis by (simp only: round_double_pos[OF assms(1)] round_double_pos[OF y] True)
  next
    case False
    with le have "ilog2 x + 1 \<le> ilog2 y" by simp
    then have "(2::rat) powi (ilog2 x + 1) \<le> 2 powi (ilog2 y)"
      by (intro power_int_increasing) simp_all
    with round_double_range(2)[OF assms(1)] round_double_range(1)[OF y] show ?thesis by simp
  qed
qed

lemma round_double_mono:
  assumes "0 \<le> x" "x \<le> y"
  shows "round_double x \<le> round_double y"
proof (cases "x = 0")
  case True
  show ?thesis
  proof (cases "y = 0")
    case True
    with \<open>x = 0\<close> show ?thesis by simp
  next
    case False
    with assms True have "0 < y" by simp
    from round_double_pos_pos[OF this] True show ?thesis by (simp add: round_double_def)
  qed
next
  case False
  with assms have "0 < x" by simp
  from round_double_mono_pos[OF this assms(2)] show ?thesis .
qed

lemma round_double_nonneg: "0 \<le> x \<Longrightarrow> 0 \<le> round_double x"
  using round_double_mono[of 0 x] by (simp add: round_double_def)

lemma round_double_idem_pos:
  assumes "0 < x"
  shows "round_double (round_double x) = round_double x"
proof -
  let ?e = "ilog2 x"
  let ?u = "(2::rat) powi (?e - 52)"
  let ?n = "round_half_even (x / ?u)"
  have u: "0 < ?u" by (simp add: zero_less_power_int)
  have rx: "round_double x = of_int ?n * ?u" by (rule round_double_pos[OF assms])
  have pos: "0 < round_double x" by (rule round_double_pos_pos[OF assms])
  note mr = mantissa_range[OF assms]
  show ?thesis
  proof (cases "?n = 2 ^ 53")
    case True
    have e1: "(2::rat) powi (?e + 1) = 2 ^ 53 * ?u"
      by (rule pow_split53)
    have val: "round_double x = 2 powi (?e + 1)" by (simp add: rx True e1)
    have "(2::rat) powi (?e + 1) < 2 powi (?e + 1 + 1)"
      by (intro power_int_strict_increasing) simp_all
    then have il: "ilog2 (round_double x) = ?e + 1"
      by (intro ilog2_unique) (simp_all add: val)
    have sp: "(2::rat) powi (?e + 1) = 2 ^ 52 * 2 powi (?e + 1 - 52)"
      by (rule pow_split52)
    have up: "(0::rat) < 2 powi (?e + 1 - 52)" by (rule zero_less_power_int) simp
    from sp up have "round_double x / 2 powi (?e + 1 - 52) = of_int (2 ^ 52)"
      by (simp add: val)
    then have "round_double (round_double x) = of_int (2 ^ 52) * 2 powi (?e + 1 - 52)"
      by (simp only: round_double_pos[OF pos] il round_half_even_of_int)
    also have "\<dots> = 2 powi (?e + 1)"
      using sp by simp
    finally show ?thesis by (simp only: val)
  next
    case False
    with mr(2) have lt: "?n < 2 ^ 53" by simp
    have e1: "(2::rat) powi (?e + 1) = 2 ^ 53 * ?u"
      by (rule pow_split53)
    have "(of_int ?n :: rat) < of_int (2 ^ 53)" using lt by (simp only: of_int_less_iff)
    then have "of_int ?n * ?u < 2 ^ 53 * ?u" using u by simp
    then have hi: "round_double x < 2 powi (?e + 1)" by (simp only: rx e1)
    have il: "ilog2 (round_double x) = ?e"
      by (rule ilog2_unique[OF round_double_range(1)[OF assms] hi])
    have "round_double x / ?u = of_int ?n" using u by (simp add: rx)
    then have "round_double (round_double x) = of_int ?n * ?u"
      by (simp only: round_double_pos[OF pos] il round_half_even_of_int)
    then show ?thesis by (simp only: rx)
  qed
qed

lemma round_double_idem: "0 \<le> x \<Longrightarrow> round_double (round_double x) = round_double x"
  using round_double_idem_pos[of x] by (cases "x = 0") (simp_all add: round_double_def)

subsection \<open>Running sums\<close>

lemma length_cumsum_from: "length (cumsum_from acc xs) = length xs"
  by (induction xs arbitrary: acc) auto

lemma nth_cumsum_from:
  "i < length xs \<Longrightarrow> cumsum_from acc xs ! i = foldl float_add acc (take (Suc i) xs)"
proof (induction xs arbitrary: acc i)
  case Nil
  then show ?case by simp
next
  case (Cons x xs)
  show ?case
  proof (cases i)
    case 0
    then show ?thesis by simp
  next
    case (Suc j)
    with Cons.prems have "j < length xs" by simp
    from Cons.IH[OF this, of "float_add acc x"] Suc show ?thesis by simp
  qed
qed

lemma last_cumsum_from:
  "xs \<noteq> [] \<Longrightarrow> last (cumsum_from acc xs) = foldl float_add acc xs"
proof (induction xs arbitrary: acc)
  case Nil
  then show ?case by simp
next
  case (Cons x xs)
  show ?case
  proof (cases "xs = []")
    case True
    then show ?thesis by simp
  next
    case False
    then have "cumsum_from (float_add acc x) xs \<noteq> []"
      using length_cumsum_from[of "float_add acc x" xs] by (metis length_0_conv)
    with Cons.IH[OF False, of "float_add acc x"] show ?thesis by simp
  qed
qed

text \<open>
  A running sum that is a double and is not negative stays so, and does not go down,
  when a value that is not negative is added.
\<close>

lemma float_add_step:
  assumes "0 \<le> acc" "round_double acc = acc" "0 \<le> x"
  shows "acc \<le> float_add acc x" "0 \<le> float_add acc x"
    "round_double (float_add acc x) = float_add acc x"
proof -
  have le: "acc \<le> acc + x" using assms(3) by simp
  from round_double_mono[OF assms(1) le] show up: "acc \<le> float_add acc x"
    by (simp add: float_add_def assms(2))
  from assms(1) up show "0 \<le> float_add acc x" by simp
  have "0 \<le> acc + x" using assms(1,3) by simp
  from round_double_idem[OF this] show "round_double (float_add acc x) = float_add acc x"
    by (simp add: float_add_def)
qed

lemma cumsum_from_lower:
  assumes "\<forall>x \<in> set xs. 0 \<le> x" "0 \<le> acc" "round_double acc = acc"
    and "y \<in> set (cumsum_from acc xs)"
  shows "acc \<le> y"
  using assms
proof (induction xs arbitrary: acc)
  case Nil
  then show ?case by simp
next
  case (Cons x xs)
  have x: "0 \<le> x" and rest: "\<forall>x \<in> set xs. 0 \<le> x" using Cons.prems(1) by simp_all
  note st = float_add_step[OF Cons.prems(2,3) x]
  from Cons.prems(4) consider "y = float_add acc x" | "y \<in> set (cumsum_from (float_add acc x) xs)"
    by auto
  then show ?case
  proof cases
    case 1
    with st(1) show ?thesis by simp
  next
    case 2
    from Cons.IH[OF rest st(2) st(3) 2] st(1) show ?thesis by simp
  qed
qed

lemma sorted_cumsum_from:
  assumes "\<forall>x \<in> set xs. 0 \<le> x" "0 \<le> acc" "round_double acc = acc"
  shows "sorted (cumsum_from acc xs)"
  using assms
proof (induction xs arbitrary: acc)
  case Nil
  then show ?case by simp
next
  case (Cons x xs)
  have x: "0 \<le> x" and rest: "\<forall>x \<in> set xs. 0 \<le> x" using Cons.prems(1) by simp_all
  note st = float_add_step[OF Cons.prems(2,3) x]
  have "\<forall>y \<in> set (cumsum_from (float_add acc x) xs). float_add acc x \<le> y"
    using cumsum_from_lower[OF rest st(2) st(3)] by blast
  with Cons.IH[OF rest st(2) st(3)] show ?case by simp
qed

lemma pairwise_sum_small: "length xs < 8 \<Longrightarrow> pairwise_sum xs = foldl float_add 0 xs"
  by (simp add: pairwise_sum.simps)

subsection \<open>The year summary\<close>

lemma map_fst_groupby_sum: "map fst (groupby_sum rows) = sort (remdups (map d_age rows))"
  by (simp add: groupby_sum_def o_def)

lemma sort_key_groupby_sum: "sort_key fst (groupby_sum rows) = groupby_sum rows"
  by (rule sort_key_id_if_sorted) (simp add: map_fst_groupby_sum)

lemma length_cumsum: "length (cumsum xs) = length xs"
  by (simp add: cumsum_def length_cumsum_from)

lemma year_sum_unfold:
  "year_sum d = map (\<lambda>p. \<lparr>y_age = fst (fst p), y_premium = snd (fst p), y_cum = snd p\<rparr>)
                    (zip (groupby_sum d) (cumsum (map snd (groupby_sum d))))"
  by (simp add: year_sum_def sort_key_groupby_sum Let_def split_def)

lemma year_sum_fst:
  "map (\<lambda>y. (y_age y, y_premium y)) (year_sum d) = groupby_sum d"
proof -
  have "map (\<lambda>y. (y_age y, y_premium y)) (year_sum d)
        = map fst (zip (groupby_sum d) (cumsum (map snd (groupby_sum d))))"
    by (simp add: year_sum_unfold o_def)
  also have "\<dots> = groupby_sum d"
    by (rule map_fst_zip) (simp add: length_cumsum)
  finally show ?thesis .
qed

lemma year_sum_ages: "map y_age (year_sum d) = sort (remdups (map d_age d))"
proof -
  have "map y_age (year_sum d) = map fst (map (\<lambda>y. (y_age y, y_premium y)) (year_sum d))"
    by (simp add: o_def)
  then show ?thesis by (simp only: year_sum_fst map_fst_groupby_sum)
qed

lemma year_sum_premiums: "map y_premium (year_sum d) = map snd (groupby_sum d)"
proof -
  have "map y_premium (year_sum d) = map snd (map (\<lambda>y. (y_age y, y_premium y)) (year_sum d))"
    by (simp add: o_def)
  then show ?thesis by (simp only: year_sum_fst)
qed

lemma year_sum_cum: "map y_cum (year_sum d) = cumsum (map y_premium (year_sum d))"
proof -
  have "map y_cum (year_sum d) = map snd (zip (groupby_sum d) (cumsum (map snd (groupby_sum d))))"
    by (simp add: year_sum_unfold o_def)
  also have "\<dots> = cumsum (map snd (groupby_sum d))"
    by (rule map_snd_zip) (simp add: length_cumsum)
  finally show ?thesis by (simp only: year_sum_premiums)
qed

lemma sum_list_indicator:
  "distinct ks \<Longrightarrow> sum_list (map (\<lambda>a. if k = a then (v::rat) else 0) ks) = (if k \<in> set ks then v else 0)"
  by (induction ks) auto

lemma sum_list_groups:
  fixes f :: "'r \<Rightarrow> rat"
  assumes "distinct ks" and "g ` set d \<subseteq> set ks"
  shows "sum_list (map (\<lambda>a. sum_list (map f (filter (\<lambda>r. g r = a) d))) ks) = sum_list (map f d)"
  using assms(2)
proof (induction d)
  case Nil
  then show ?case by simp
next
  case (Cons r d)
  then have sub: "g ` set d \<subseteq> set ks" and mem: "g r \<in> set ks" by auto
  have "(\<lambda>a. sum_list (map f (filter (\<lambda>r. g r = a) (r # d))))
        = (\<lambda>a. (if g r = a then f r else 0) + sum_list (map f (filter (\<lambda>r. g r = a) d)))"
    by (rule ext) simp
  then have "sum_list (map (\<lambda>a. sum_list (map f (filter (\<lambda>r. g r = a) (r # d)))) ks)
        = sum_list (map (\<lambda>a. if g r = a then f r else 0) ks)
          + sum_list (map (\<lambda>a. sum_list (map f (filter (\<lambda>r. g r = a) d))) ks)"
    by (simp only: sum_list_addf)
  also have "\<dots> = f r + sum_list (map f d)"
    using mem by (simp only: sum_list_indicator[OF assms(1)] Cons.IH[OF sub] if_True)
  finally show ?case by simp
qed

lemma year_sum_total: "sum_list (map y_premium (year_sum d)) = sum_list (map d_premium d)"
proof -
  have "sum_list (map snd (groupby_sum d))
        = sum_list (map (\<lambda>a. sum_list (map d_premium (filter (\<lambda>r. d_age r = a) d)))
                        (sort (remdups (map d_age d))))"
    by (simp add: groupby_sum_def o_def)
  also have "\<dots> = sum_list (map d_premium d)"
    by (rule sum_list_groups) simp_all
  finally show ?thesis by (simp only: year_sum_premiums)
qed

lemma year_sum_nonneg:
  assumes "\<forall>r \<in> set d. 0 \<le> d_premium r"
  shows "\<forall>y \<in> set (year_sum d). 0 \<le> y_premium y"
proof -
  have "\<forall>p \<in> set (map snd (groupby_sum d)). 0 \<le> p"
    using assms by (auto simp: groupby_sum_def intro!: sum_list_nonneg)
  then show ?thesis by (simp only: year_sum_premiums[symmetric]) simp
qed

subsection \<open>The age sequence and the shape of the detail rows\<close>

lemma target_ages_sorted: "sorted (target_ages s e incl)" "distinct (target_ages s e incl)"
  by (simp_all add: target_ages_def py_range_def)

lemma calc_item_ages:
  "calc_item rates_df sx ages it = Inr b \<Longrightarrow> map d_age b = ages"
  using calc_item_Inr(3)[of rates_df sx ages it b]
  by (auto simp: mk_row_def o_def)

lemma calc_item_codes:
  "calc_item rates_df sx ages it = Inr b \<Longrightarrow> map d_code b = replicate (length ages) (item_code it)"
  using calc_item_Inr(3)[of rates_df sx ages it b]
  by (auto simp: mk_row_def o_def map_replicate_const)

lemma blocks_ages:
  "list_all2 (\<lambda>it b. calc_item rates_df sx ages it = Inr b) items blocks \<Longrightarrow>
   map d_age (concat blocks) = concat (map (\<lambda>_. ages) items)"
  by (induction items blocks rule: list_all2_induct) (auto simp: calc_item_ages)

lemma blocks_codes:
  "list_all2 (\<lambda>it b. calc_item rates_df sx ages it = Inr b) items blocks \<Longrightarrow>
   map d_code (concat blocks) = concat (map (\<lambda>it. replicate (length ages) (item_code it)) items)"
  by (induction items blocks rule: list_all2_induct) (auto simp: calc_item_codes)

lemma calc_total_Inr:
  assumes "calc_total rates_df items sx s e incl = Inr (tot, detail, ysum)"
  shows "s \<le> e"
    and "calc_items rates_df sx (target_ages s e incl) items [] = Inr detail"
    and "detail \<noteq> []"
    and "ysum = year_sum detail"
    and "tot = pairwise_sum (map y_premium ysum)"
  using assms by (auto simp: calc_total_def Let_def split: if_splits sum.splits)

lemma calc_total_blocks:
  assumes "calc_total rates_df items sx s e incl = Inr (tot, detail, ysum)"
  shows "\<exists>blocks. list_all2 (\<lambda>it b. calc_item rates_df sx (target_ages s e incl) it = Inr b) items blocks
           \<and> detail = concat blocks"
  using calc_items_Inr[OF calc_total_Inr(2)[OF assms]] by simp

lemma year_sum_strict: "sorted_wrt (<) (map y_age (year_sum d))"
  by (simp add: year_sum_ages strict_sorted_iff)

lemma year_ages_are_target:
  assumes ok: "calc_total rates_df items sx s e incl = Inr (tot, detail, ysum)"
  shows "map y_age ysum = target_ages s e incl"
proof -
  let ?ages = "target_ages s e incl"
  from calc_total_blocks[OF ok] obtain blocks where
    bl: "list_all2 (\<lambda>it b. calc_item rates_df sx ?ages it = Inr b) items blocks"
    and det: "detail = concat blocks" by blast
  have ages: "map d_age detail = concat (map (\<lambda>_. ?ages) items)"
    unfolding det by (rule blocks_ages[OF bl])
  have ne: "detail \<noteq> []" by (rule calc_total_Inr(3)[OF ok])
  have "items \<noteq> []"
  proof
    assume "items = []"
    with ages have "map d_age detail = []" by simp
    with ne show False by simp
  qed
  then have "set (map d_age detail) = set ?ages"
    unfolding ages by (cases items) auto
  then have "set (sort (remdups (map d_age detail))) = set ?ages" by simp
  moreover have "sorted (sort (remdups (map d_age detail)))"
    and "distinct (sort (remdups (map d_age detail)))" by simp_all
  ultimately have "sort (remdups (map d_age detail)) = ?ages"
    using target_ages_sorted[of s e incl] by (metis sorted_distinct_set_unique)
  then show ?thesis
    by (simp only: calc_total_Inr(4)[OF ok] year_sum_ages)
qed

subsection \<open>Errors of the loop, and its success\<close>

lemma calc_total_first_error:
  assumes "s \<le> e"
    and "\<forall>p \<in> set pre. \<exists>b. calc_item rates_df sx (target_ages s e incl) p = Inr b"
    and "calc_item rates_df sx (target_ages s e incl) it = Inl err"
  shows "calc_total rates_df (pre @ it # post) sx s e incl = Inl err"
  using assms(1) calc_items_first_error[OF assms(2,3), of post "[]"]
  by (simp add: calc_total_def)

lemma calc_total_Inr_each:
  assumes "calc_total rates_df items sx s e incl = Inr res" and "it \<in> set items"
  shows "\<exists>b. calc_item rates_df sx (target_ages s e incl) it = Inr b"
proof -
  obtain tot detail ysum where "res = (tot, detail, ysum)" by (cases res)
  with assms(1) have "calc_items rates_df sx (target_ages s e incl) items [] = Inr detail"
    by (simp add: calc_total_Inr(2))
  from calc_items_Inr_each[OF this assms(2)] show ?thesis .
qed

subsection \<open>Premiums are not negative\<close>

lemma item_multiplier_nonneg:
  "item_multiplier u amt q = Inr m \<Longrightarrow> 0 \<le> amt \<Longrightarrow> 0 \<le> q \<Longrightarrow> 0 \<le> m"
proof -
  assume m: "item_multiplier u amt q = Inr m" and amt: "0 \<le> amt" and q: "0 \<le> q"
  from m obtain x where x: "unit_to_multiplier u amt = Inr x" and mx: "m = x * of_int q"
    by (auto simp: item_multiplier_def split: sum.splits)
  from x amt have "0 \<le> x"
    by (auto simp: unit_to_multiplier_def split: if_splits)
  with q show "0 \<le> m" by (simp add: mx)
qed

lemma rate_map_of_in_table:
  assumes "a \<in> age ` set (query rates_df code sx)"
  shows "\<exists>r \<in> set rates_df. the (rate_map_of (query rates_df code sx) a) = rate r"
proof -
  let ?sub = "query rates_df code sx"
  let ?hits = "filter (\<lambda>r. age r = a) ?sub"
  have ne: "?hits \<noteq> []" using assms by (auto simp: filter_empty_conv)
  then have "last ?hits \<in> set ?hits" by (rule last_in_set)
  then have "last ?hits \<in> set rates_df" by (auto simp: query_def)
  moreover have "the (rate_map_of ?sub a) = rate (last ?hits)"
    by (simp add: rate_map_of_last[OF assms])
  ultimately show ?thesis by blast
qed

lemma calc_item_premium_nonneg:
  assumes ok: "calc_item rates_df sx ages it = Inr b"
    and rates: "\<forall>r \<in> set rates_df. 0 \<le> rate r"
    and amt: "0 \<le> amount it" and q: "0 \<le> qty it"
  shows "\<forall>r \<in> set b. 0 \<le> d_premium r"
proof
  fix r assume r: "r \<in> set b"
  let ?sub = "query rates_df (item_code it) sx"
  let ?u = "hd (unique (map unit ?sub))"
  from calc_item_Inr(3)[OF ok] obtain m where
    m: "item_multiplier ?u (amount it) (qty it) = Inr m"
    and b: "b = map (\<lambda>a. mk_row (the (rate_map_of ?sub a)) m ?u it a) ages" by blast
  from r b obtain a where a: "a \<in> set ages"
    and row: "r = mk_row (the (rate_map_of ?sub a)) m ?u it a" by auto
  from calc_item_Inr(4)[OF ok] a have "a \<in> age ` set ?sub" by blast
  from rate_map_of_in_table[OF this] rates have "0 \<le> the (rate_map_of ?sub a)" by auto
  moreover have "0 \<le> m" by (rule item_multiplier_nonneg[OF m amt q])
  ultimately show "0 \<le> d_premium r" by (simp add: row mk_row_def)
qed

lemma calc_total_premium_nonneg:
  assumes ok: "calc_total rates_df items sx s e incl = Inr (tot, detail, ysum)"
    and rates: "\<forall>r \<in> set rates_df. 0 \<le> rate r"
    and its: "\<forall>it \<in> set items. 0 \<le> amount it \<and> 0 \<le> qty it"
  shows "\<forall>r \<in> set detail. 0 \<le> d_premium r"
proof
  fix r assume r: "r \<in> set detail"
  from calc_total_blocks[OF ok] obtain blocks where
    bl: "list_all2 (\<lambda>it b. calc_item rates_df sx (target_ages s e incl) it = Inr b) items blocks"
    and det: "detail = concat blocks" by blast
  from r det obtain b where b: "b \<in> set blocks" and rb: "r \<in> set b" by auto
  from b obtain i where i: "i < length blocks" and bi: "b = blocks ! i"
    by (auto simp: in_set_conv_nth)
  from bl i have len: "i < length items"
    and cb: "calc_item rates_df sx (target_ages s e incl) (items ! i) = Inr b"
    by (auto simp: list_all2_conv_all_nth bi)
  from its len have "0 \<le> amount (items ! i)" "0 \<le> qty (items ! i)" by auto
  from calc_item_premium_nonneg[OF cb rates this] rb show "0 \<le> d_premium r" by blast
qed

text \<open>The equations that evaluate a call on concrete data.\<close>

lemmas calc_defs = calc_total_def target_ages_def py_range_def upto.simps calc_item_def
  query_def Let_def unique_def item_multiplier_def unit_to_multiplier_def rate_map_of_def
  to_dict_def py_int_def year_sum_def groupby_sum_def cumsum_def mk_row_def

section \<open>The claims\<close>

subsection \<open>C1: the degenerate window\<close>

text \<open>
  With \<open>start_age = end_age\<close> and the end age excluded the age sequence is empty, so
  every item that passes its checks contributes no row and the frame built at line 185
  has no column: the call ends in \<^verbatim>\<open>groupby\<close> with a \<^verbatim>\<open>KeyError\<close>, or earlier in
  one of the checks of the loop, and returns nothing, whatever the table and the basket.
\<close>

lemma degenerate_never_returns: "\<exists>err. calc_total rates_df items sx a a False = Inl err"
proof (cases "calc_items rates_df sx [] items []")
  case (Inl err)
  then show ?thesis by (simp add: calc_total_def target_ages_def py_range_def)
next
  case (Inr rows)
  from calc_items_Inr[OF Inr] obtain blocks where
    bl: "list_all2 (\<lambda>it b. calc_item rates_df sx [] it = Inr b) items blocks"
    and rows: "rows = concat blocks" by auto
  have "\<forall>b \<in> set blocks. b = []"
  proof
    fix b assume "b \<in> set blocks"
    then obtain it where "calc_item rates_df sx [] it = Inr b"
      using bl by (auto simp: list_all2_conv_all_nth in_set_conv_nth)
    from calc_item_Inr(3)[OF this] show "b = []" by auto
  qed
  then have "rows = []" using rows by simp
  with Inr show ?thesis by (simp add: calc_total_def target_ages_def py_range_def)
qed

text \<open>
  Claim C1 says that a call with \<open>start_age = end_age\<close> and the end age excluded
  returns an empty age sequence, no detail row, no summary row and total 0, without an
  error. On the table of the end-to-end scenario, with product A001 in the basket and
  the window 20 to 20, end excluded, the age sequence is empty and the call raises the
  \<^verbatim>\<open>KeyError\<close> of the missing age column instead of returning.
\<close>

theorem degenerate_window_raises:
  "target_ages 20 20 False = [] \<and>
   calc_total rates_A001 [item_A001] ''M'' 20 20 False = Inl (KeyErrorColumn ''age'')"
  by (simp add: calc_defs rates_A001_def item_A001_def)

subsection \<open>C2: the end-to-end scenario\<close>

text \<open>
  Claim C2: on the table with product A001 (unit \<^verbatim>\<open>per_10k\<close>, sex M, ages 16 to 20,
  rate 5), the item of face amount 1,000,000 and quantity 1 and the window 16 to 18,
  end included, the multiplier is 100, the premium is 500 at each of the ages 16, 17
  and 18, the year summary is (16, 500, 500), (17, 500, 1000), (18, 500, 1500), and the
  total is 1500.
\<close>

theorem end_to_end_scenario:
  "item_multiplier ''per_10k'' (amount item_A001) (qty item_A001) = Inr 100 \<and>
   calc_total rates_A001 [item_A001] ''M'' 16 18 True =
     Inr (1500,
       [\<lparr>d_age = 16, d_code = ''A001'', d_name = ''TestLife'', d_unit = ''per_10k'',
          d_amount = 1000000, d_qty = 1, d_rate = 5, d_premium = 500\<rparr>,
        \<lparr>d_age = 17, d_code = ''A001'', d_name = ''TestLife'', d_unit = ''per_10k'',
          d_amount = 1000000, d_qty = 1, d_rate = 5, d_premium = 500\<rparr>,
        \<lparr>d_age = 18, d_code = ''A001'', d_name = ''TestLife'', d_unit = ''per_10k'',
          d_amount = 1000000, d_qty = 1, d_rate = 5, d_premium = 500\<rparr>],
       [\<lparr>y_age = 16, y_premium = 500, y_cum = 500\<rparr>,
        \<lparr>y_age = 17, y_premium = 500, y_cum = 1000\<rparr>,
        \<lparr>y_age = 18, y_premium = 500, y_cum = 1500\<rparr>])"
  by code_simp

subsection \<open>C3: the order of the rows returned\<close>

text \<open>
  Claim C3 says that the detail rows returned are sorted by (age, product code) and the
  year-summary rows by age. The detail frame is returned as it was built (line 195
  returns \<open>df_detail\<close>; the sort by age and product code is applied at line 219, where
  the table is shown). With products A001 and B002 in the basket and the window 16 to
  17 the rows come back as (16, A001), (17, A001), (16, B002), (17, B002): age 17
  stands before age 16.
\<close>

theorem detail_rows_not_sorted:
  "calc_total rates_AB [item_A001, item_B002] ''M'' 16 17 True =
     Inr (1004,
       [\<lparr>d_age = 16, d_code = ''A001'', d_name = ''TestLife'', d_unit = ''per_10k'',
          d_amount = 1000000, d_qty = 1, d_rate = 5, d_premium = 500\<rparr>,
        \<lparr>d_age = 17, d_code = ''A001'', d_name = ''TestLife'', d_unit = ''per_10k'',
          d_amount = 1000000, d_qty = 1, d_rate = 5, d_premium = 500\<rparr>,
        \<lparr>d_age = 16, d_code = ''B002'', d_name = ''Rider'', d_unit = ''per_1k'',
          d_amount = 1000, d_qty = 1, d_rate = 2, d_premium = 2\<rparr>,
        \<lparr>d_age = 17, d_code = ''B002'', d_name = ''Rider'', d_unit = ''per_1k'',
          d_amount = 1000, d_qty = 1, d_rate = 2, d_premium = 2\<rparr>],
       [\<lparr>y_age = 16, y_premium = 502, y_cum = 502\<rparr>,
        \<lparr>y_age = 17, y_premium = 502, y_cum = 1004\<rparr>])
   \<and> \<not> detail_sorted
       [\<lparr>d_age = 16, d_code = ''A001'', d_name = ''TestLife'', d_unit = ''per_10k'',
          d_amount = 1000000, d_qty = 1, d_rate = 5, d_premium = 500\<rparr>,
        \<lparr>d_age = 17, d_code = ''A001'', d_name = ''TestLife'', d_unit = ''per_10k'',
          d_amount = 1000000, d_qty = 1, d_rate = 5, d_premium = 500\<rparr>,
        \<lparr>d_age = 16, d_code = ''B002'', d_name = ''Rider'', d_unit = ''per_1k'',
          d_amount = 1000, d_qty = 1, d_rate = 2, d_premium = 2\<rparr>,
        \<lparr>d_age = 17, d_code = ''B002'', d_name = ''Rider'', d_unit = ''per_1k'',
          d_amount = 1000, d_qty = 1, d_rate = 2, d_premium = 2\<rparr>]"
  by code_simp

text \<open>
  Claim C3 as amended: on every successful call the detail rows are in basket order, one
  block per item, each block running through the age sequence in ascending order with
  the product code of its item; and the year-summary rows are sorted by age, strictly
  ascending.
\<close>

theorem detail_rows_in_basket_order:
  assumes ok: "calc_total rates_df items sx s e incl = Inr (tot, detail, ysum)"
  shows "map d_age detail = concat (map (\<lambda>it. target_ages s e incl) items) \<and>
         map d_code detail =
           concat (map (\<lambda>it. replicate (length (target_ages s e incl)) (item_code it)) items) \<and>
         sorted_wrt (<) (map y_age ysum)"
proof -
  let ?ages = "target_ages s e incl"
  from calc_total_blocks[OF ok] obtain blocks where
    bl: "list_all2 (\<lambda>it b. calc_item rates_df sx ?ages it = Inr b) items blocks"
    and det: "detail = concat blocks" by blast
  have "map d_age detail = concat (map (\<lambda>it. ?ages) items)"
    unfolding det by (rule blocks_ages[OF bl])
  moreover have "map d_code detail
      = concat (map (\<lambda>it. replicate (length ?ages) (item_code it)) items)"
    unfolding det by (rule blocks_codes[OF bl])
  moreover have "sorted_wrt (<) (map y_age ysum)"
    by (simp only: calc_total_Inr(4)[OF ok] year_sum_strict)
  ultimately show ?thesis by blast
qed

theorem detail_rows_in_basket_order_witness:
  "map d_age
     [mk_row 5 100 ''per_10k'' item_A001 16, mk_row 5 100 ''per_10k'' item_A001 17,
      mk_row 2 1 ''per_1k'' item_B002 16, mk_row 2 1 ''per_1k'' item_B002 17]
     = [16, 17, 16, 17] \<and>
   map d_code
     [mk_row 5 100 ''per_10k'' item_A001 16, mk_row 5 100 ''per_10k'' item_A001 17,
      mk_row 2 1 ''per_1k'' item_B002 16, mk_row 2 1 ''per_1k'' item_B002 17]
     = [''A001'', ''A001'', ''B002'', ''B002''] \<and>
   sorted_wrt (<) (map y_age [\<lparr>y_age = 16, y_premium = 502, y_cum = 502\<rparr>,
                               \<lparr>y_age = 17, y_premium = 502, y_cum = 1004\<rparr>])"
proof -
  have ok: "calc_total rates_AB [item_A001, item_B002] ''M'' 16 17 True =
     Inr (1004,
       [mk_row 5 100 ''per_10k'' item_A001 16, mk_row 5 100 ''per_10k'' item_A001 17,
        mk_row 2 1 ''per_1k'' item_B002 16, mk_row 2 1 ''per_1k'' item_B002 17],
       [\<lparr>y_age = 16, y_premium = 502, y_cum = 502\<rparr>,
        \<lparr>y_age = 17, y_premium = 502, y_cum = 1004\<rparr>])"
    by code_simp
  have ages: "target_ages 16 17 True = [16, 17]"
    by (simp add: target_ages_def py_range_def upto.simps)
  from detail_rows_in_basket_order[OF ok] show ?thesis
    by (simp add: ages item_A001_def item_B002_def)
qed

subsection \<open>C4: the unit conversion\<close>

text \<open>
  Claim C4: for every face amount, \<open>unit_to_multiplier\<close> returns the amount divided by
  10,000 for \<^verbatim>\<open>per_10k\<close>, divided by 1,000 for \<^verbatim>\<open>per_1k\<close>, and unchanged for
  \<^verbatim>\<open>per_1\<close>; for any other unit string it raises the unsupported-unit error and
  returns no default.
\<close>

theorem unit_to_multiplier_cases:
  "unit_to_multiplier ''per_10k'' amt = Inr (amt / 10000) \<and>
   unit_to_multiplier ''per_1k'' amt = Inr (amt / 1000) \<and>
   unit_to_multiplier ''per_1'' amt = Inr amt \<and>
   (u \<noteq> ''per_10k'' \<and> u \<noteq> ''per_1k'' \<and> u \<noteq> ''per_1''
      \<longrightarrow> unit_to_multiplier u amt = Inl (UnsupportedUnit u))"
  by (simp add: unit_to_multiplier_def)

theorem unit_to_multiplier_cases_witness:
  "unit_to_multiplier ''per_10k'' 1000000 = Inr 100 \<and>
   unit_to_multiplier ''per_1k'' 1000000 = Inr 1000 \<and>
   unit_to_multiplier ''per_1'' 1000000 = Inr 1000000 \<and>
   unit_to_multiplier ''per_100'' 1000000 = Inl (UnsupportedUnit ''per_100'')"
  using unit_to_multiplier_cases[of 1000000 "''per_100''"] by simp

subsection \<open>C5: the running total\<close>

lemma year_sum_nonempty:
  assumes "d \<noteq> []"
  shows "year_sum d \<noteq> []"
proof
  assume "year_sum d = []"
  then have "map y_age (year_sum d) = []" by simp
  then have "sort (remdups (map d_age d)) = []" by (simp only: year_sum_ages)
  then have "length (sort (remdups (map d_age d))) = 0" by simp
  then have "remdups (map d_age d) = []" by simp
  then show False using assms by simp
qed

text \<open>
  Claim C5 says that, on every successful call with valid input, the cumulative premium
  is the prefix sum of the per-age premiums in ascending order of age, never decreases,
  and ends at the total returned (zero for an empty age sequence). The cumulative
  column is \<^verbatim>\<open>cumsum()\<close>, which adds left to right, and the total is \<^verbatim>\<open>sum()\<close>,
  which adds pairwise: from eight ages on, the two roundings can differ. With product T
  (rates 0.1 to 0.8 at the ages 20 to 27, unit \<^verbatim>\<open>per_1k\<close>), face amount 1000 and the
  window 20 to 27, the total returned is the double 3.6 and the cumulative value of the
  last row is the double 3.5999999999999996.
\<close>

theorem final_cumulative_differs_from_total:
  "map_sum id fst (calc_total rates_tenths [item_T] ''M'' 20 27 True)
     = Inr (8106479329266893 / 2251799813685248) \<and>
   map_sum id (y_cum \<circ> last \<circ> snd \<circ> snd) (calc_total rates_tenths [item_T] ''M'' 20 27 True)
     = Inr (2026619832316723 / 562949953421312) \<and>
   (8106479329266893 / 2251799813685248 :: rat) \<noteq> 2026619832316723 / 562949953421312"
  by code_simp

text \<open>
  Claim C5 as amended: on every successful call with valid input (no rate of the table
  negative, no face amount and no quantity of the basket negative), the cumulative
  premium of each summary row is the running sum of the per-age premiums up to and
  including it, in ascending order of age, each addition rounded to a double; it never
  decreases as the age increases; there is at least one summary row; the total returned
  is the pairwise sum of the same per-age premiums, and it is the last cumulative value
  whenever there are fewer than eight ages.
\<close>

theorem cumulative_is_running_sum:
  assumes ok: "calc_total rates_df items sx s e incl = Inr (tot, detail, ysum)"
    and rates: "\<forall>r \<in> set rates_df. 0 \<le> rate r"
    and its: "\<forall>it \<in> set items. 0 \<le> amount it \<and> 0 \<le> qty it"
  shows "(\<forall>i < length ysum.
            y_cum (ysum ! i) = foldl float_add 0 (map y_premium (take (Suc i) ysum))) \<and>
         sorted_wrt (<) (map y_age ysum) \<and>
         sorted (map y_cum ysum) \<and>
         ysum \<noteq> [] \<and>
         tot = pairwise_sum (map y_premium ysum) \<and>
         (length ysum < 8 \<longrightarrow> tot = y_cum (last ysum))"
proof -
  let ?ps = "map y_premium ysum"
  have ys: "ysum = year_sum detail" by (rule calc_total_Inr(4)[OF ok])
  have ne: "ysum \<noteq> []"
    unfolding ys by (rule year_sum_nonempty[OF calc_total_Inr(3)[OF ok]])
  have cum: "map y_cum ysum = cumsum_from 0 ?ps"
    unfolding ys by (simp only: year_sum_cum cumsum_def)
  have prefix: "\<forall>i < length ysum.
      y_cum (ysum ! i) = foldl float_add 0 (map y_premium (take (Suc i) ysum))"
  proof (intro allI impI)
    fix i assume i: "i < length ysum"
    then have "y_cum (ysum ! i) = map y_cum ysum ! i" by simp
    also have "\<dots> = foldl float_add 0 (take (Suc i) ?ps)"
      unfolding cum using i by (intro nth_cumsum_from) simp
    finally show "y_cum (ysum ! i) = foldl float_add 0 (map y_premium (take (Suc i) ysum))"
      by (simp add: take_map)
  qed
  have ages: "sorted_wrt (<) (map y_age ysum)"
    unfolding ys by (rule year_sum_strict)
  have "\<forall>r \<in> set detail. 0 \<le> d_premium r"
    by (rule calc_total_premium_nonneg[OF ok rates its])
  then have nonneg: "\<forall>p \<in> set ?ps. 0 \<le> p"
    unfolding ys using year_sum_nonneg by auto
  have zero: "round_double 0 = 0" by (simp add: round_double_def)
  have mono: "sorted (map y_cum ysum)"
    unfolding cum by (rule sorted_cumsum_from[OF nonneg _ zero]) simp
  have tot: "tot = pairwise_sum ?ps" by (rule calc_total_Inr(5)[OF ok])
  have final: "length ysum < 8 \<longrightarrow> tot = y_cum (last ysum)"
  proof
    assume short: "length ysum < 8"
    have pne: "?ps \<noteq> []" using ne by simp
    have "y_cum (last ysum) = last (map y_cum ysum)" using ne by (simp add: last_map)
    also have "\<dots> = foldl float_add 0 ?ps" unfolding cum by (rule last_cumsum_from[OF pne])
    also have "\<dots> = pairwise_sum ?ps" using short by (simp add: pairwise_sum_small)
    finally show "tot = y_cum (last ysum)" by (simp add: tot)
  qed
  from prefix ages mono ne tot final show ?thesis by blast
qed

theorem cumulative_is_running_sum_witness:
  "calc_total rates_AB [item_A001, item_B002] ''M'' 16 17 True =
     Inr (1004,
       [mk_row 5 100 ''per_10k'' item_A001 16, mk_row 5 100 ''per_10k'' item_A001 17,
        mk_row 2 1 ''per_1k'' item_B002 16, mk_row 2 1 ''per_1k'' item_B002 17],
       [\<lparr>y_age = 16, y_premium = 502, y_cum = 502\<rparr>,
        \<lparr>y_age = 17, y_premium = 502, y_cum = 1004\<rparr>]) \<and>
   sorted (map y_cum [\<lparr>y_age = 16, y_premium = 502, y_cum = 502\<rparr>,
                      \<lparr>y_age = 17, y_premium = 502, y_cum = 1004\<rparr>]) \<and>
   (1004::rat) = pairwise_sum (map y_premium [\<lparr>y_age = 16, y_premium = 502, y_cum = 502\<rparr>,
                                            \<lparr>y_age = 17, y_premium = 502, y_cum = 1004\<rparr>]) \<and>
   (1004::rat) = y_cum (last [\<lparr>y_age = 16, y_premium = 502, y_cum = 502\<rparr>,
                              \<lparr>y_age = 17, y_premium = 502, y_cum = 1004\<rparr>])"
proof -
  have ok: "calc_total rates_AB [item_A001, item_B002] ''M'' 16 17 True =
     Inr (1004,
       [mk_row 5 100 ''per_10k'' item_A001 16, mk_row 5 100 ''per_10k'' item_A001 17,
        mk_row 2 1 ''per_1k'' item_B002 16, mk_row 2 1 ''per_1k'' item_B002 17],
       [\<lparr>y_age = 16, y_premium = 502, y_cum = 502\<rparr>,
        \<lparr>y_age = 17, y_premium = 502, y_cum = 1004\<rparr>])"
    by code_simp
  have rates: "\<forall>r \<in> set rates_AB. 0 \<le> rate r"
    by (simp add: rates_AB_def rates_A001_def)
  have its: "\<forall>it \<in> set [item_A001, item_B002]. 0 \<le> amount it \<and> 0 \<le> qty it"
    by (simp add: item_A001_def item_B002_def)
  have short: "length [\<lparr>y_age = 16, y_premium = 502, y_cum = 502\<rparr>,
                       \<lparr>y_age = (17::int), y_premium = (502::rat), y_cum = (1004::rat)\<rparr>] < 8"
    by simp
  from cumulative_is_running_sum[OF ok rates its] short ok show ?thesis by blast
qed

subsection \<open>C6: every missing age is reported\<close>

text \<open>
  Claim C6: an item whose age-to-rate lookup misses one or more ages of the age
  sequence makes the call fail with the missing-age error, and the error lists every
  missing age of that product, not the first one alone. The lookup of an item is
  built once the window is valid, the items before it have been priced, and the item
  has rows, one unit and a supported unit; then the call fails with the missing-age
  error for its product, carrying all ages of the sequence that no row of the product
  and sex has, in ascending order. Whichever item of the basket misses an age, the
  call returns nothing.
\<close>

theorem missing_ages_all_reported:
  "(s \<le> e \<and>
    (\<forall>p \<in> set pre. \<exists>b. calc_item rates_df sx (target_ages s e incl) p = Inr b) \<and>
    query rates_df (item_code it) sx \<noteq> [] \<and>
    length (unique (map unit (query rates_df (item_code it) sx))) = 1 \<and>
    item_multiplier (hd (unique (map unit (query rates_df (item_code it) sx))))
       (amount it) (qty it) = Inr m \<and>
    (\<exists>a \<in> set (target_ages s e incl). a \<notin> age ` set (query rates_df (item_code it) sx))
    \<longrightarrow> calc_total rates_df (pre @ it # post) sx s e incl =
          Inl (MissingAgeCoverage (item_code it)
                 (filter (\<lambda>a. a \<notin> age ` set (query rates_df (item_code it) sx))
                         (target_ages s e incl))))
   \<and>
   (it' \<in> set items \<and>
    (\<exists>a \<in> set (target_ages s e incl). a \<notin> age ` set (query rates_df (item_code it') sx))
    \<longrightarrow> (\<exists>err. calc_total rates_df items sx s e incl = Inl err))"
proof (intro conjI impI)
  let ?ages = "target_ages s e incl"
  let ?sub = "query rates_df (item_code it) sx"
  assume h: "s \<le> e \<and>
    (\<forall>p \<in> set pre. \<exists>b. calc_item rates_df sx ?ages p = Inr b) \<and>
    ?sub \<noteq> [] \<and> length (unique (map unit ?sub)) = 1 \<and>
    item_multiplier (hd (unique (map unit ?sub))) (amount it) (qty it) = Inr m \<and>
    (\<exists>a \<in> set ?ages. a \<notin> age ` set ?sub)"
  then have ne: "filter (\<lambda>a. a \<notin> age ` set ?sub) ?ages \<noteq> []"
    by (auto simp: filter_empty_conv)
  have "calc_item rates_df sx ?ages it =
          Inl (MissingAgeCoverage (item_code it) (filter (\<lambda>a. a \<notin> age ` set ?sub) ?ages))"
    using h ne by (simp add: calc_item_def Let_def rate_map_of_None)
  with h show "calc_total rates_df (pre @ it # post) sx s e incl =
          Inl (MissingAgeCoverage (item_code it) (filter (\<lambda>a. a \<notin> age ` set ?sub) ?ages))"
    by (intro calc_total_first_error) simp_all
next
  assume h: "it' \<in> set items \<and>
    (\<exists>a \<in> set (target_ages s e incl). a \<notin> age ` set (query rates_df (item_code it') sx))"
  show "\<exists>err. calc_total rates_df items sx s e incl = Inl err"
  proof (cases "calc_total rates_df items sx s e incl")
    case (Inl err)
    then show ?thesis by blast
  next
    case (Inr res)
    from calc_total_Inr_each[OF Inr] h obtain b where
      "calc_item rates_df sx (target_ages s e incl) it' = Inr b" by blast
    from calc_item_Inr(4)[OF this] h show ?thesis by blast
  qed
qed

text \<open>
  The table covers the ages 16 to 40 and the window is 16 to 50, end included: the
  error lists all of 41 to 50.
\<close>

theorem missing_ages_all_reported_witness:
  "calc_total rates_16_40 [item_A001] ''M'' 16 50 True
     = Inl (MissingAgeCoverage ''A001'' [41, 42, 43, 44, 45, 46, 47, 48, 49, 50])"
proof -
  have ages: "target_ages 16 50 True = [16..50]"
    by (simp add: target_ages_def py_range_def)
  have sub: "query rates_16_40 (item_code item_A001) ''M'' = rates_16_40"
    by (simp add: query_def rates_16_40_def item_A001_def)
  have covered: "age ` set rates_16_40 = {16..40}"
    unfolding rates_16_40_def
    by (simp only: set_map image_image rate_record.select_convs set_upto image_ident)
  have units: "unique (map unit rates_16_40) = [''per_10k'']"
    by (simp add: rates_16_40_def unique_def upto.simps)
  have ne: "rates_16_40 \<noteq> []"
    by (simp add: rates_16_40_def upto.simps)
  have mult: "item_multiplier ''per_10k'' (amount item_A001) (qty item_A001) = Inr 100"
    by (simp add: item_multiplier_def unit_to_multiplier_def item_A001_def)
  have gap: "\<exists>a \<in> set [16..50]. a \<notin> {16..40::int}"
    by (rule bexI[of _ 41]) simp_all
  have missing: "filter (\<lambda>a. a \<notin> {16..40::int}) [16..50] = [41, 42, 43, 44, 45, 46, 47, 48, 49, 50]"
    by (simp add: upto.simps)
  have code: "item_code item_A001 = ''A001''" by (simp add: item_A001_def)
  have le: "(16::int) \<le> 50" by simp
  from missing_ages_all_reported[of 16 50 "[]" rates_16_40 "''M''" True item_A001 100 "[]"]
  have "calc_total rates_16_40 ([] @ item_A001 # []) ''M'' 16 50 True =
          Inl (MissingAgeCoverage (item_code item_A001)
                 (filter (\<lambda>a. a \<notin> age ` set (query rates_16_40 (item_code item_A001) ''M''))
                         (target_ages 16 50 True)))"
    using le ne gap mult by (simp add: ages sub covered units)
  then show ?thesis
    by (simp only: code sub[unfolded code] ages covered missing append.simps)
qed

subsection \<open>C7: one unit per product\<close>

text \<open>
  Claim C7: an item whose rows for its product code and the sex carry more than one
  distinct unit makes the call fail with the inconsistent-unit error, which names the
  product and the conflicting units; the call gets past this check only when there is
  exactly one distinct unit. The check of an item is reached once the window is valid
  and the items before it have been priced; the error then carries the product code and
  every distinct unit of the rows, in order of first appearance. A call that succeeds
  has exactly one distinct unit for every item of the basket.
\<close>

theorem inconsistent_unit_rejected:
  "(s \<le> e \<and>
    (\<forall>p \<in> set pre. \<exists>b. calc_item rates_df sx (target_ages s e incl) p = Inr b) \<and>
    1 < card (unit ` set (query rates_df (item_code it) sx))
    \<longrightarrow> calc_total rates_df (pre @ it # post) sx s e incl =
          Inl (InconsistentUnit (item_code it) (unique (map unit (query rates_df (item_code it) sx))))
        \<and> set (unique (map unit (query rates_df (item_code it) sx)))
            = unit ` set (query rates_df (item_code it) sx)
        \<and> distinct (unique (map unit (query rates_df (item_code it) sx)))
        \<and> 1 < length (unique (map unit (query rates_df (item_code it) sx))))
   \<and>
   (calc_total rates_df items sx s e incl = Inr res
    \<longrightarrow> (\<forall>it' \<in> set items. card (unit ` set (query rates_df (item_code it') sx)) = 1))"
proof (intro conjI impI)
  let ?ages = "target_ages s e incl"
  let ?sub = "query rates_df (item_code it) sx"
  assume h: "s \<le> e \<and> (\<forall>p \<in> set pre. \<exists>b. calc_item rates_df sx ?ages p = Inr b) \<and>
    1 < card (unit ` set ?sub)"
  then have len: "1 < length (unique (map unit ?sub))" by (simp add: length_unique)
  then show "1 < length (unique (map unit ?sub))" .
  show "set (unique (map unit ?sub)) = unit ` set ?sub" by (simp add: set_unique)
  show "distinct (unique (map unit ?sub))" by (rule distinct_unique)
  have ne: "?sub \<noteq> []" using h by (auto simp: card_eq_0_iff)
  have "calc_item rates_df sx ?ages it = Inl (InconsistentUnit (item_code it) (unique (map unit ?sub)))"
    using ne len by (simp add: calc_item_def Let_def)
  with h show "calc_total rates_df (pre @ it # post) sx s e incl =
      Inl (InconsistentUnit (item_code it) (unique (map unit ?sub)))"
    by (intro calc_total_first_error) simp_all
next
  assume ok: "calc_total rates_df items sx s e incl = Inr res"
  show "\<forall>it' \<in> set items. card (unit ` set (query rates_df (item_code it') sx)) = 1"
  proof
    fix it' assume "it' \<in> set items"
    from calc_total_Inr_each[OF ok this] obtain b where
      "calc_item rates_df sx (target_ages s e incl) it' = Inr b" by blast
    from calc_item_Inr(2)[OF this]
    show "card (unit ` set (query rates_df (item_code it') sx)) = 1"
      by (simp add: length_unique)
  qed
qed

text \<open>
  Product X has one row with unit \<^verbatim>\<open>per_10k\<close> and one with \<^verbatim>\<open>per_1k\<close>: with A001
  and X in the basket the call fails naming X and both units; with A001 alone it
  succeeds, and A001 has one unit.
\<close>

theorem inconsistent_unit_rejected_witness:
  "calc_total rates_AX [item_A001, item_X] ''M'' 16 17 True
     = Inl (InconsistentUnit ''X'' [''per_10k'', ''per_1k'']) \<and>
   calc_total rates_AX [item_A001] ''M'' 16 17 True
     = Inr (1000,
         [mk_row 5 100 ''per_10k'' item_A001 16, mk_row 5 100 ''per_10k'' item_A001 17],
         [\<lparr>y_age = 16, y_premium = 500, y_cum = 500\<rparr>,
          \<lparr>y_age = 17, y_premium = 500, y_cum = 1000\<rparr>]) \<and>
   card (unit ` set (query rates_AX ''A001'' ''M'')) = 1"
proof -
  have ok: "calc_total rates_AX [item_A001] ''M'' 16 17 True
     = Inr (1000,
         [mk_row 5 100 ''per_10k'' item_A001 16, mk_row 5 100 ''per_10k'' item_A001 17],
         [\<lparr>y_age = 16, y_premium = 500, y_cum = 500\<rparr>,
          \<lparr>y_age = 17, y_premium = 500, y_cum = 1000\<rparr>])"
    by code_simp
  have pre: "\<forall>p \<in> set [item_A001]. \<exists>b. calc_item rates_AX ''M'' (target_ages 16 17 True) p = Inr b"
    by (simp add: calc_defs rates_AX_def rates_A001_def item_A001_def)
  have units: "unit ` set (query rates_AX (item_code item_X) ''M'') = {''per_10k'', ''per_1k''}"
    by (auto simp: query_def rates_AX_def rates_A001_def item_X_def)
  have many: "1 < card (unit ` set (query rates_AX (item_code item_X) ''M''))"
    unfolding units by simp
  have uq: "unique (map unit (query rates_AX ''X'' ''M'')) = [''per_10k'', ''per_1k'']"
    by (simp add: query_def rates_AX_def rates_A001_def unique_def)
  have code: "item_code item_X = ''X''" by (simp add: item_X_def)
  have le: "(16::int) \<le> 17" by simp
  note inst = inconsistent_unit_rejected[of 16 17 "[item_A001]" rates_AX "''M''" True item_X "[]"
      "[item_A001]"
      "(1000,
         [mk_row 5 100 ''per_10k'' item_A001 16, mk_row 5 100 ''per_10k'' item_A001 17],
         [\<lparr>y_age = 16, y_premium = 500, y_cum = 500\<rparr>,
          \<lparr>y_age = 17, y_premium = 500, y_cum = 1000\<rparr>])"]
  from inst le pre many
  have "calc_total rates_AX ([item_A001] @ item_X # []) ''M'' 16 17 True
     = Inl (InconsistentUnit (item_code item_X)
              (unique (map unit (query rates_AX (item_code item_X) ''M''))))"
    by blast
  then have bad: "calc_total rates_AX [item_A001, item_X] ''M'' 16 17 True
     = Inl (InconsistentUnit ''X'' [''per_10k'', ''per_1k''])"
    by (simp only: code uq append.simps)
  from inst ok
  have "\<forall>it' \<in> set [item_A001]. card (unit ` set (query rates_AX (item_code it') ''M'')) = 1"
    by blast
  then have one: "card (unit ` set (query rates_AX ''A001'' ''M'')) = 1"
    by (simp add: item_A001_def)
  from bad ok one show ?thesis by blast
qed

subsection \<open>C8: the age sequence\<close>

text \<open>
  Claim C8: the age sequence holds exactly the integers from \<open>start_age\<close> to
  \<open>end_age\<close>, the end age itself exactly when \<open>include_end\<close> is set, in ascending
  order; from 16 to 50 these are 35 ages with the end included and 34 without. A call
  that succeeds has a valid window and one summary row for each age of the sequence. A
  window whose end age is below its start age makes the call fail with the
  invalid-range error.
\<close>

theorem target_ages_exact:
  "(\<forall>a. a \<in> set (target_ages s e incl) \<longleftrightarrow> s \<le> a \<and> (a < e \<or> (incl \<and> a = e))) \<and>
   sorted_wrt (<) (target_ages s e incl) \<and>
   target_ages 16 50 True = [16..50] \<and> length (target_ages 16 50 True) = 35 \<and>
   target_ages 16 50 False = [16..49] \<and> length (target_ages 16 50 False) = 34 \<and>
   (calc_total rates_df items sx s e incl = Inr (tot, detail, ysum)
      \<longrightarrow> s \<le> e \<and> map y_age ysum = target_ages s e incl) \<and>
   (e < s \<longrightarrow> calc_total rates_df items sx s e incl = Inl InvalidRange)"
proof -
  have "\<forall>a. a \<in> set (target_ages s e incl) \<longleftrightarrow> s \<le> a \<and> (a < e \<or> (incl \<and> a = e))"
    by (auto simp: target_ages_def py_range_def)
  moreover have "sorted_wrt (<) (target_ages s e incl)"
    by (simp add: strict_sorted_iff target_ages_sorted)
  moreover have "target_ages 16 50 True = [16..50]" "target_ages 16 50 False = [16..49]"
    by (simp_all add: target_ages_def py_range_def)
  moreover have "length (target_ages 16 50 True) = 35" "length (target_ages 16 50 False) = 34"
    by (simp_all add: target_ages_def py_range_def)
  moreover have "calc_total rates_df items sx s e incl = Inr (tot, detail, ysum)
      \<longrightarrow> s \<le> e \<and> map y_age ysum = target_ages s e incl"
    using calc_total_Inr(1) year_ages_are_target by blast
  moreover have "e < s \<longrightarrow> calc_total rates_df items sx s e incl = Inl InvalidRange"
    by (simp add: calc_total_def)
  ultimately show ?thesis by blast
qed

theorem target_ages_exact_witness:
  "target_ages 16 18 True = [16, 17, 18] \<and>
   calc_total rates_A001 [item_A001] ''M'' 16 18 True =
     Inr (1500,
       [mk_row 5 100 ''per_10k'' item_A001 16, mk_row 5 100 ''per_10k'' item_A001 17,
        mk_row 5 100 ''per_10k'' item_A001 18],
       [\<lparr>y_age = 16, y_premium = 500, y_cum = 500\<rparr>,
        \<lparr>y_age = 17, y_premium = 500, y_cum = 1000\<rparr>,
        \<lparr>y_age = 18, y_premium = 500, y_cum = 1500\<rparr>]) \<and>
   map y_age [\<lparr>y_age = 16, y_premium = 500, y_cum = 500\<rparr>,
              \<lparr>y_age = 17, y_premium = 500, y_cum = 1000\<rparr>,
              \<lparr>y_age = 18, y_premium = 500, y_cum = 1500\<rparr>] = target_ages 16 18 True \<and>
   calc_total rates_A001 [item_A001] ''M'' 18 16 True = Inl InvalidRange"
proof -
  have ages: "target_ages 16 18 True = [16, 17, 18]"
    by (simp add: target_ages_def py_range_def upto.simps)
  have ok: "calc_total rates_A001 [item_A001] ''M'' 16 18 True =
     Inr (1500,
       [mk_row 5 100 ''per_10k'' item_A001 16, mk_row 5 100 ''per_10k'' item_A001 17,
        mk_row 5 100 ''per_10k'' item_A001 18],
       [\<lparr>y_age = 16, y_premium = 500, y_cum = 500\<rparr>,
        \<lparr>y_age = 17, y_premium = 500, y_cum = 1000\<rparr>,
        \<lparr>y_age = 18, y_premium = 500, y_cum = 1500\<rparr>])"
    by code_simp
  have lt: "(16::int) < 18" by simp
  from target_ages_exact[of 16 18 True rates_A001 "[item_A001]" "''M''"] ok
  have a: "map y_age [\<lparr>y_age = 16, y_premium = 500, y_cum = 500\<rparr>,
              \<lparr>y_age = 17, y_premium = 500, y_cum = 1000\<rparr>,
              \<lparr>y_age = 18, y_premium = 500, y_cum = 1500\<rparr>] = target_ages 16 18 True"
    by blast
  from target_ages_exact[of 18 16 True rates_A001 "[item_A001]" "''M''"] lt
  have b: "calc_total rates_A001 [item_A001] ''M'' 18 16 True = Inl InvalidRange"
    by blast
  from ages ok a b show ?thesis by blast
qed

subsection \<open>C9: two rows for one product, sex and age\<close>

text \<open>
  An item is priced exactly when its product has rows for the sex, these rows carry one
  unit, the unit is one of the three supported ones, and every age of the sequence is
  the age of some row. All four conditions are about the set of rows: how often a
  (sex, age) pair occurs plays no part.
\<close>

lemma item_multiplier_supported:
  "(\<exists>m. item_multiplier u amt q = Inr m) \<longleftrightarrow> u \<in> {''per_10k'', ''per_1k'', ''per_1''}"
proof (cases "u \<in> {''per_10k'', ''per_1k'', ''per_1''}")
  case True
  then consider "u = ''per_10k''" | "u = ''per_1k''" | "u = ''per_1''" by auto
  then have "\<exists>x. unit_to_multiplier u amt = Inr x"
  proof cases
    case 1
    then have "unit_to_multiplier u amt = Inr (amt / 10000)"
      by (simp add: unit_to_multiplier_def)
    then show ?thesis ..
  next
    case 2
    then have "unit_to_multiplier u amt = Inr (amt / 1000)"
      by (simp add: unit_to_multiplier_def)
    then show ?thesis ..
  next
    case 3
    then have "unit_to_multiplier u amt = Inr amt"
      by (simp add: unit_to_multiplier_def)
    then show ?thesis ..
  qed
  then obtain x where "unit_to_multiplier u amt = Inr x" ..
  then have "item_multiplier u amt q = Inr (x * of_int q)"
    by (simp add: item_multiplier_def)
  then have "\<exists>m. item_multiplier u amt q = Inr m" ..
  with True show ?thesis by blast
next
  case False
  then have "unit_to_multiplier u amt = Inl (UnsupportedUnit u)"
    by (simp add: unit_to_multiplier_def)
  then have "item_multiplier u amt q = Inl (UnsupportedUnit u)"
    by (simp add: item_multiplier_def)
  with False show ?thesis by simp
qed

lemma single_unit:
  assumes "card (unit ` set sub) = 1"
  shows "length (unique (map unit sub)) = 1"
    and "\<forall>r \<in> set sub. unit r = hd (unique (map unit sub))"
proof -
  show len: "length (unique (map unit sub)) = 1"
    using assms by (simp add: length_unique)
  then obtain u where u: "unique (map unit sub) = [u]"
    by (cases "unique (map unit sub)") auto
  have "unit ` set sub = set (unique (map unit sub))" by (simp add: set_unique)
  then have "unit ` set sub = {u}" by (simp add: u)
  then show "\<forall>r \<in> set sub. unit r = hd (unique (map unit sub))"
    by (auto simp: u)
qed

lemma calc_item_succeeds_iff:
  "(\<exists>b. calc_item rates_df sx ages it = Inr b) \<longleftrightarrow>
     query rates_df (item_code it) sx \<noteq> [] \<and>
     card (unit ` set (query rates_df (item_code it) sx)) = 1 \<and>
     (\<forall>r \<in> set (query rates_df (item_code it) sx). unit r \<in> {''per_10k'', ''per_1k'', ''per_1''}) \<and>
     set ages \<subseteq> age ` set (query rates_df (item_code it) sx)"
  (is "?L \<longleftrightarrow> ?R")
proof
  let ?sub = "query rates_df (item_code it) sx"
  let ?u = "hd (unique (map unit ?sub))"
  assume ?L
  then obtain b where b: "calc_item rates_df sx ages it = Inr b" by blast
  have ne: "?sub \<noteq> []" by (rule calc_item_Inr(1)[OF b])
  have card: "card (unit ` set ?sub) = 1"
    using calc_item_Inr(2)[OF b] by (simp add: length_unique)
  from calc_item_Inr(3)[OF b] have "\<exists>m. item_multiplier ?u (amount it) (qty it) = Inr m"
    by blast
  then have "?u \<in> {''per_10k'', ''per_1k'', ''per_1''}"
    by (simp only: item_multiplier_supported)
  with single_unit(2)[OF card] have sup: "\<forall>r \<in> set ?sub. unit r \<in> {''per_10k'', ''per_1k'', ''per_1''}"
    by simp
  have cov: "set ages \<subseteq> age ` set ?sub" using calc_item_Inr(4)[OF b] by blast
  from ne card sup cov show ?R by blast
next
  let ?sub = "query rates_df (item_code it) sx"
  let ?u = "hd (unique (map unit ?sub))"
  assume R: ?R
  then have ne: "?sub \<noteq> []" and card: "card (unit ` set ?sub) = 1"
    and sup: "\<forall>r \<in> set ?sub. unit r \<in> {''per_10k'', ''per_1k'', ''per_1''}"
    and cov: "set ages \<subseteq> age ` set ?sub" by blast+
  from ne obtain r0 where r0: "r0 \<in> set ?sub" by (cases ?sub) auto
  with single_unit(2)[OF card] sup have "?u \<in> {''per_10k'', ''per_1k'', ''per_1''}"
    by metis
  then obtain m where m: "item_multiplier ?u (amount it) (qty it) = Inr m"
    using item_multiplier_supported[of ?u "amount it" "qty it"] by blast
  have nomiss: "filter (\<lambda>a. rate_map_of ?sub a = None) ages = []"
    using cov by (auto simp: filter_empty_conv rate_map_of_None)
  have all: "\<forall>a \<in> set ages. rate_map_of ?sub a \<noteq> None"
    using cov by (auto simp: rate_map_of_None)
  have "calc_item rates_df sx ages it =
          Inr (map (\<lambda>a. mk_row (the (rate_map_of ?sub a)) m ?u it a) ages)"
    using ne single_unit(1)[OF card] m nomiss emit_rows_total[OF all]
    by (simp add: calc_item_def Let_def)
  then show ?L by blast
qed

lemma calc_items_all_ok:
  "\<forall>p \<in> set items. \<exists>b. calc_item rates_df sx ages p = Inr b \<Longrightarrow>
   \<exists>rows. calc_items rates_df sx ages items acc = Inr rows"
  by (induction items arbitrary: acc) auto

lemma calc_total_succeeds_iff:
  "(\<exists>res. calc_total rates_df items sx s e incl = Inr res) \<longleftrightarrow>
     s \<le> e \<and> items \<noteq> [] \<and> target_ages s e incl \<noteq> [] \<and>
     (\<forall>it \<in> set items. \<exists>b. calc_item rates_df sx (target_ages s e incl) it = Inr b)"
  (is "?L \<longleftrightarrow> ?R")
proof
  let ?ages = "target_ages s e incl"
  assume ?L
  then obtain tot detail ysum where
    ok: "calc_total rates_df items sx s e incl = Inr (tot, detail, ysum)"
    by (metis prod_cases3)
  have le: "s \<le> e" by (rule calc_total_Inr(1)[OF ok])
  from calc_total_blocks[OF ok] obtain blocks where
    bl: "list_all2 (\<lambda>it b. calc_item rates_df sx ?ages it = Inr b) items blocks"
    and det: "detail = concat blocks" by blast
  have ages: "map d_age detail = concat (map (\<lambda>it. ?ages) items)"
    unfolding det by (rule blocks_ages[OF bl])
  have ne: "detail \<noteq> []" by (rule calc_total_Inr(3)[OF ok])
  have cne: "concat (map (\<lambda>it. ?ages) items) \<noteq> []"
    using ages ne by (metis map_is_Nil_conv)
  have i: "items \<noteq> []" using cne by auto
  have a: "?ages \<noteq> []"
  proof
    assume "?ages = []"
    then have "concat (map (\<lambda>it. ?ages) items) = []" by simp
    with cne show False by simp
  qed
  have "\<forall>it \<in> set items. \<exists>b. calc_item rates_df sx ?ages it = Inr b"
    using calc_total_Inr_each[OF ok] by blast
  with le i a show ?R by blast
next
  let ?ages = "target_ages s e incl"
  assume R: ?R
  then have le: "s \<le> e" and i: "items \<noteq> []" and a: "?ages \<noteq> []"
    and each: "\<forall>it \<in> set items. \<exists>b. calc_item rates_df sx ?ages it = Inr b" by blast+
  from calc_items_all_ok[OF each] obtain rows where
    rows: "calc_items rates_df sx ?ages items [] = Inr rows" by blast
  from calc_items_Inr[OF rows] obtain blocks where
    bl: "list_all2 (\<lambda>it b. calc_item rates_df sx ?ages it = Inr b) items blocks"
    and det: "rows = concat blocks" by auto
  have "map d_age rows = concat (map (\<lambda>it. ?ages) items)"
    unfolding det by (rule blocks_ages[OF bl])
  moreover have "concat (map (\<lambda>it. ?ages) items) \<noteq> []"
    using i a by (cases items) auto
  ultimately have "rows \<noteq> []" by auto
  with le rows show ?L by (simp add: calc_total_def Let_def)
qed

text \<open>
  Claim C9 says that when two rows share product code, sex and age but differ in rate,
  the call either prices the age with the rate of the first such row or fails, and
  never averages. Product D has two rows for sex M and age 16, at rates 5 and 7 in this
  order: the call succeeds and prices age 16 at rate 7, the rate of the second row,
  while the first matching row has rate 5.
\<close>

theorem duplicate_rows_not_first_match:
  "calc_total rates_dup [item_D] ''M'' 16 16 True =
     Inr (7,
       [\<lparr>d_age = 16, d_code = ''D'', d_name = ''Dup'', d_unit = ''per_1'',
          d_amount = 1, d_qty = 1, d_rate = 7, d_premium = 7\<rparr>],
       [\<lparr>y_age = 16, y_premium = 7, y_cum = 7\<rparr>]) \<and>
   rate (hd (filter (\<lambda>r. age r = 16) (query rates_dup ''D'' ''M''))) = 5"
  by code_simp

text \<open>
  Claim C9 as amended: rows that share product code, sex and age raise no error. The
  call succeeds exactly when the window is valid, the basket and the age sequence are
  not empty, and every item has rows for the sex, with one unit, a supported one, and
  with every age of the sequence among their ages, however many rows share an age. On
  every successful call each detail row carries the rate of the last row of the table
  that matches its product code, the sex and its age (the last row wins, as a dict
  built in row order keeps the last value of a key), and its premium is that one rate
  times the multiplier of its item: no rate is averaged.
\<close>

theorem duplicate_rows_last_wins:
  "((\<exists>res. calc_total rates_df items sx s e incl = Inr res) \<longleftrightarrow>
      s \<le> e \<and> items \<noteq> [] \<and> target_ages s e incl \<noteq> [] \<and>
      (\<forall>it \<in> set items.
         query rates_df (item_code it) sx \<noteq> [] \<and>
         card (unit ` set (query rates_df (item_code it) sx)) = 1 \<and>
         (\<forall>x \<in> set (query rates_df (item_code it) sx).
            unit x \<in> {''per_10k'', ''per_1k'', ''per_1''}) \<and>
         set (target_ages s e incl) \<subseteq> age ` set (query rates_df (item_code it) sx)))
   \<and>
   (calc_total rates_df items sx s e incl = Inr (tot, detail, ysum) \<and> r \<in> set detail \<longrightarrow>
      filter (\<lambda>x. age x = d_age r) (query rates_df (d_code r) sx) \<noteq> [] \<and>
      d_rate r = rate (last (filter (\<lambda>x. age x = d_age r) (query rates_df (d_code r) sx))) \<and>
      (\<exists>it \<in> set items. \<exists>m. item_code it = d_code r \<and>
          item_multiplier (d_unit r) (amount it) (qty it) = Inr m \<and>
          d_premium r = d_rate r * m))"
proof (intro conjI impI)
  show "(\<exists>res. calc_total rates_df items sx s e incl = Inr res) \<longleftrightarrow>
      s \<le> e \<and> items \<noteq> [] \<and> target_ages s e incl \<noteq> [] \<and>
      (\<forall>it \<in> set items.
         query rates_df (item_code it) sx \<noteq> [] \<and>
         card (unit ` set (query rates_df (item_code it) sx)) = 1 \<and>
         (\<forall>x \<in> set (query rates_df (item_code it) sx).
            unit x \<in> {''per_10k'', ''per_1k'', ''per_1''}) \<and>
         set (target_ages s e incl) \<subseteq> age ` set (query rates_df (item_code it) sx))"
    by (simp only: calc_total_succeeds_iff calc_item_succeeds_iff)
next
  assume h: "calc_total rates_df items sx s e incl = Inr (tot, detail, ysum) \<and> r \<in> set detail"
  then have ok: "calc_total rates_df items sx s e incl = Inr (tot, detail, ysum)"
    and r: "r \<in> set detail" by simp_all
  let ?ages = "target_ages s e incl"
  from calc_total_blocks[OF ok] obtain blocks where
    bl: "list_all2 (\<lambda>it b. calc_item rates_df sx ?ages it = Inr b) items blocks"
    and det: "detail = concat blocks" by blast
  from r det obtain b where b: "b \<in> set blocks" and rb: "r \<in> set b" by auto
  from b obtain i where i: "i < length blocks" and bi: "b = blocks ! i"
    by (auto simp: in_set_conv_nth)
  define it where "it = items ! i"
  from bl i have len: "i < length items"
    and cb: "calc_item rates_df sx ?ages it = Inr b"
    by (auto simp: list_all2_conv_all_nth bi it_def)
  have mem: "it \<in> set items" using len by (simp add: it_def)
  let ?sub = "query rates_df (item_code it) sx"
  let ?u = "hd (unique (map unit ?sub))"
  from calc_item_Inr(3)[OF cb] obtain m where
    m: "item_multiplier ?u (amount it) (qty it) = Inr m"
    and rows: "b = map (\<lambda>a. mk_row (the (rate_map_of ?sub a)) m ?u it a) ?ages" by blast
  from rb rows obtain a where a: "a \<in> set ?ages"
    and row: "r = mk_row (the (rate_map_of ?sub a)) m ?u it a" by auto
  from calc_item_Inr(4)[OF cb] a have cov: "a \<in> age ` set ?sub" by blast
  have code: "d_code r = item_code it" and ag: "d_age r = a" and un: "d_unit r = ?u"
    and rt: "d_rate r = the (rate_map_of ?sub a)" and pr: "d_premium r = d_rate r * m"
    by (simp_all add: row mk_row_def)
  have ne: "filter (\<lambda>x. age x = a) ?sub \<noteq> []"
    using cov by (auto simp: filter_empty_conv)
  have last: "d_rate r = rate (last (filter (\<lambda>x. age x = a) ?sub))"
    by (simp add: rt rate_map_of_last[OF cov])
  have prem: "\<exists>it \<in> set items. \<exists>m. item_code it = d_code r \<and>
             item_multiplier (d_unit r) (amount it) (qty it) = Inr m \<and>
             d_premium r = d_rate r * m"
    using mem m pr by (auto simp: code un)
  from ne show "filter (\<lambda>x. age x = d_age r) (query rates_df (d_code r) sx) \<noteq> []"
    by (simp add: code ag)
  from last show "d_rate r
      = rate (last (filter (\<lambda>x. age x = d_age r) (query rates_df (d_code r) sx)))"
    by (simp add: code ag)
  from prem show "\<exists>it \<in> set items. \<exists>m. item_code it = d_code r \<and>
             item_multiplier (d_unit r) (amount it) (qty it) = Inr m \<and>
             d_premium r = d_rate r * m" .
qed

theorem duplicate_rows_last_wins_witness:
  "(\<exists>res. calc_total rates_dup [item_D] ''M'' 16 16 True = Inr res) \<and>
   calc_total rates_dup [item_D] ''M'' 16 16 True =
     Inr (7, [mk_row 7 1 ''per_1'' item_D 16], [\<lparr>y_age = 16, y_premium = 7, y_cum = 7\<rparr>]) \<and>
   d_rate (mk_row 7 1 ''per_1'' item_D 16) =
     rate (last (filter (\<lambda>x. age x = 16) (query rates_dup ''D'' ''M''))) \<and>
   rate (last (filter (\<lambda>x. age x = 16) (query rates_dup ''D'' ''M''))) = 7"
proof -
  note inst = duplicate_rows_last_wins[of rates_dup "[item_D]" "''M''" 16 16 True
      7 "[mk_row 7 1 ''per_1'' item_D 16]" "[\<lparr>y_age = 16, y_premium = 7, y_cum = 7\<rparr>]"
      "mk_row 7 1 ''per_1'' item_D 16"]
  have sub: "query rates_dup (item_code item_D) ''M'' = rates_dup"
    by (simp add: query_def rates_dup_def item_D_def)
  have conds: "(16::int) \<le> 16 \<and> [item_D] \<noteq> [] \<and> target_ages 16 16 True \<noteq> [] \<and>
      (\<forall>it \<in> set [item_D].
         query rates_dup (item_code it) ''M'' \<noteq> [] \<and>
         card (unit ` set (query rates_dup (item_code it) ''M'')) = 1 \<and>
         (\<forall>x \<in> set (query rates_dup (item_code it) ''M'').
            unit x \<in> {''per_10k'', ''per_1k'', ''per_1''}) \<and>
         set (target_ages 16 16 True) \<subseteq> age ` set (query rates_dup (item_code it) ''M''))"
    by (simp add: sub) (simp add: rates_dup_def target_ages_def py_range_def upto.simps)
  from inst conds have ex: "\<exists>res. calc_total rates_dup [item_D] ''M'' 16 16 True = Inr res"
    by blast
  have ok: "calc_total rates_dup [item_D] ''M'' 16 16 True =
     Inr (7, [mk_row 7 1 ''per_1'' item_D 16], [\<lparr>y_age = 16, y_premium = 7, y_cum = 7\<rparr>])"
    by code_simp
  have r: "mk_row 7 1 ''per_1'' item_D 16 \<in> set [mk_row 7 1 ''per_1'' item_D 16]" by simp
  from inst ok r have "d_rate (mk_row 7 1 ''per_1'' item_D 16) =
     rate (last (filter (\<lambda>x. age x = d_age (mk_row 7 1 ''per_1'' item_D 16))
        (query rates_dup (d_code (mk_row 7 1 ''per_1'' item_D 16)) ''M'')))"
    by blast
  then have a: "d_rate (mk_row 7 1 ''per_1'' item_D 16) =
     rate (last (filter (\<lambda>x. age x = 16) (query rates_dup ''D'' ''M'')))"
    by (simp add: mk_row_def item_D_def)
  have b: "rate (last (filter (\<lambda>x. age x = 16) (query rates_dup ''D'' ''M''))) = 7"
    by (simp add: query_def rates_dup_def)
  from ex ok a b show ?thesis by blast
qed

subsection \<open>C10: no rate directory, or no rate file\<close>

text \<open>
  Claim C10: when the rate directory does not exist, or holds no CSV file,
  \<open>load_rates\<close> returns the empty table and raises nothing; no file is read and the
  table is not built.
\<close>

theorem load_rates_empty_when_no_files:
  "\<not> isdir rates_dir \<or> glob_csv rates_dir = [] \<Longrightarrow>
   load_rates isdir glob_csv read_csv build_table rates_dir = Inr []"
  by (auto simp: load_rates_def)

theorem load_rates_empty_when_no_files_witness:
  "load_rates (\<lambda>d. False) (\<lambda>d. [''rates/XDE.csv'']) (\<lambda>f enc. (None :: unit option))
      (\<lambda>dfs. Inl InvalidRange) ''rates'' = Inr [] \<and>
   load_rates (\<lambda>d. True) (\<lambda>d. []) (\<lambda>f enc. (None :: unit option))
      (\<lambda>dfs. Inl InvalidRange) ''rates'' = Inr []"
  using load_rates_empty_when_no_files[of "\<lambda>d. False" "''rates''" "\<lambda>d. [''rates/XDE.csv'']"
          "\<lambda>f enc. (None :: unit option)" "\<lambda>dfs. Inl InvalidRange"]
        load_rates_empty_when_no_files[of "\<lambda>d. True" "''rates''" "\<lambda>d. []"
          "\<lambda>f enc. (None :: unit option)" "\<lambda>dfs. Inl InvalidRange"]
  by simp

end
